theory Spec2Isabelle
  imports Complex_Main
begin

section \<open>Core game logic (tictactoe/game.py)\<close>

text \<open>
  Python exceptions that the modelled code can raise. A list read or write outside the
  list raises \<open>IndexError\<close>; every function that can raise returns \<open>py_error + 'a\<close>,
  with \<open>Inl\<close> for the raised exception.
\<close>

datatype py_error =
  IndexError | ZeroDivisionError | OverflowError | KeyError | EOFError | KeyboardInterrupt

datatype GameState = ONGOING | X_WINS | O_WINS | DRAW

text \<open>
  The attributes of a \<open>TicTacToe\<close> object. Cells and player symbols are Python strings;
  the empty cell is the string of one blank. \<open>winner\<close> and \<open>winning_pattern\<close> are
  \<open>None\<close> until a line is found. A win pattern is a Python list of three indices and
  is written as a triple.
\<close>

type_synonym pattern = "nat \<times> nat \<times> nat"

record TicTacToe =
  board :: "string list"
  current_player :: string
  game_state :: GameState
  moves_count :: int
  winner :: "string option"
  winning_pattern :: "pattern option"

definition WIN_PATTERNS :: "pattern list" where
  "WIN_PATTERNS =
     [(0, 1, 2), (3, 4, 5), (6, 7, 8),
      (0, 3, 6), (1, 4, 7), (2, 5, 8),
      (0, 4, 8), (2, 4, 6)]"

text \<open>\<open>xs[i]\<close> for a non-negative index \<open>i\<close>.\<close>

definition getitem :: "'a list \<Rightarrow> nat \<Rightarrow> py_error + 'a" where
  "getitem xs i = (if i < length xs then Inr (xs ! i) else Inl IndexError)"

text \<open>\<open>xs[i] = v\<close> for a non-negative index \<open>i\<close>.\<close>

definition setitem :: "'a list \<Rightarrow> nat \<Rightarrow> 'a \<Rightarrow> py_error + 'a list" where
  "setitem xs i v = (if i < length xs then Inr (xs[i := v]) else Inl IndexError)"

text \<open>\<open>TicTacToe.__init__\<close> and \<open>TicTacToe.reset\<close> assign the same six attributes.\<close>

definition init :: TicTacToe where
  "init = \<lparr>board = replicate 9 '' '', current_player = ''X'', game_state = ONGOING,
            moves_count = 0, winner = None, winning_pattern = None\<rparr>"

definition reset :: "TicTacToe \<Rightarrow> TicTacToe" where
  "reset s = s\<lparr>board := replicate 9 '' '', current_player := ''X'', game_state := ONGOING,
               moves_count := 0, winner := None, winning_pattern := None\<rparr>"

text \<open>
  \<open>is_valid_move\<close>: the three conjuncts of the Python \<open>and\<close> are evaluated left to
  right, so the board is read only for a position in \<open>0..8\<close>.
\<close>

definition is_valid_move :: "TicTacToe \<Rightarrow> int \<Rightarrow> py_error + bool" where
  "is_valid_move s position =
     (if 0 \<le> position \<and> position \<le> 8 then
        (case getitem (board s) (nat position) of
           Inl e \<Rightarrow> Inl e
         | Inr c \<Rightarrow> Inr (c = '' '' \<and> game_state s = ONGOING))
      else Inr False)"

text \<open>
  The test \<open>board[p0] == board[p1] == board[p2] != ' '\<close> of a pattern. A chained
  comparison stops at the first comparison that fails, so \<open>board[p2]\<close> is read only when
  the first two cells are equal. The result is the cell of the line, if there is one.
\<close>

definition line_at :: "string list \<Rightarrow> pattern \<Rightarrow> py_error + string option" where
  "line_at b p =
     (case p of (p0, p1, p2) \<Rightarrow>
        (case getitem b p0 of Inl e \<Rightarrow> Inl e | Inr c0 \<Rightarrow>
         case getitem b p1 of Inl e \<Rightarrow> Inl e | Inr c1 \<Rightarrow>
           if c0 \<noteq> c1 then Inr None
           else (case getitem b p2 of Inl e \<Rightarrow> Inl e | Inr c2 \<Rightarrow>
                   if c1 = c2 \<and> c2 \<noteq> '' '' then Inr (Some c0) else Inr None)))"

text \<open>
  \<open>_update_game_state\<close>: the \<open>for\<close> loop over the patterns, which returns at the first
  line, followed by the draw test.
\<close>

fun update_loop :: "pattern list \<Rightarrow> TicTacToe \<Rightarrow> py_error + TicTacToe" where
  "update_loop [] s =
     Inr (if moves_count s = 9 then s\<lparr>game_state := DRAW\<rparr> else s)"
| "update_loop (p # ps) s =
     (case line_at (board s) p of
        Inl e \<Rightarrow> Inl e
      | Inr (Some w) \<Rightarrow>
          Inr (s\<lparr>winner := Some w, winning_pattern := Some p,
                game_state := (if w = ''X'' then X_WINS else O_WINS)\<rparr>)
      | Inr None \<Rightarrow> update_loop ps s)"

definition update_game_state :: "TicTacToe \<Rightarrow> py_error + TicTacToe" where
  "update_game_state s = update_loop WIN_PATTERNS s"

text \<open>
  \<open>make_move\<close> returns the Boolean of the Python method together with the object after
  the call. An exception ends the call with \<open>Inl\<close>.
\<close>

definition make_move :: "TicTacToe \<Rightarrow> int \<Rightarrow> py_error + (bool \<times> TicTacToe)" where
  "make_move s position =
     (case is_valid_move s position of
        Inl e \<Rightarrow> Inl e
      | Inr valid \<Rightarrow>
          if \<not> valid then Inr (False, s)
          else
            (case setitem (board s) (nat position) (current_player s) of
               Inl e \<Rightarrow> Inl e
             | Inr b \<Rightarrow>
                 (case update_game_state (s\<lparr>board := b, moves_count := moves_count s + 1\<rparr>) of
                    Inl e \<Rightarrow> Inl e
                  | Inr s' \<Rightarrow>
                      Inr (True,
                           if game_state s' = ONGOING
                           then s'\<lparr>current_player :=
                                     (if current_player s' = ''X'' then ''O'' else ''X'')\<rparr>
                           else s'))))"

text \<open>
  \<open>get_available_moves\<close>: the comprehension \<open>[i for i in range(9) if self.board[i] == ' ']\<close>
  reads the cells in ascending order.
\<close>

fun available_from :: "string list \<Rightarrow> nat list \<Rightarrow> py_error + int list" where
  "available_from b [] = Inr []"
| "available_from b (i # rest) =
     (case getitem b i of
        Inl e \<Rightarrow> Inl e
      | Inr c \<Rightarrow>
          (case available_from b rest of
             Inl e \<Rightarrow> Inl e
           | Inr r \<Rightarrow> Inr (if c = '' '' then int i # r else r)))"

definition get_available_moves :: "TicTacToe \<Rightarrow> py_error + int list" where
  "get_available_moves s = available_from (board s) [0..<9]"

definition is_game_over :: "TicTacToe \<Rightarrow> bool" where
  "is_game_over s = (game_state s \<noteq> ONGOING)"

text \<open>\<open>get_board_copy\<close> returns a new list with the cells of the board.\<close>

definition get_board_copy :: "TicTacToe \<Rightarrow> string list" where
  "get_board_copy s = board s"

section \<open>Players (tictactoe/players.py)\<close>

subsection \<open>Scores\<close>

text \<open>
  The values \<open>best_score\<close> takes: \<open>float('-inf')\<close>, \<open>float('inf')\<close> and the integers the
  evaluation returns, with the order of Python's comparison of these numbers.
\<close>

datatype score = NegInf | Fin int | PosInf

instantiation score :: linorder
begin

fun less_eq_score :: "score \<Rightarrow> score \<Rightarrow> bool" where
  "less_eq_score NegInf _ = True"
| "less_eq_score (Fin a) NegInf = False"
| "less_eq_score (Fin a) (Fin b) = (a \<le> b)"
| "less_eq_score (Fin a) PosInf = True"
| "less_eq_score PosInf PosInf = True"
| "less_eq_score PosInf _ = False"

definition less_score :: "score \<Rightarrow> score \<Rightarrow> bool" where
  "less_score x y = (x \<le> y \<and> \<not> y \<le> x)"

instance
proof
  fix x y z :: score
  show "(x < y) = (x \<le> y \<and> \<not> y \<le> x)" by (simp add: less_score_def)
  show "x \<le> x" by (cases x) auto
  show "x \<le> y \<Longrightarrow> y \<le> z \<Longrightarrow> x \<le> z" by (cases x; cases y; cases z) auto
  show "x \<le> y \<Longrightarrow> y \<le> x \<Longrightarrow> x = y" by (cases x; cases y) auto
  show "x \<le> y \<or> y \<le> x" by (cases x; cases y) auto
qed

end

subsection \<open>The minimax player\<close>

text \<open>
  The attributes of a \<open>SmartAI\<close> that the search reads. \<open>opponent_symbol\<close> is assigned
  once, in \<open>__init__\<close>, from \<open>symbol\<close>; the display name plays no part and is left out.
\<close>

record SmartAI =
  symbol :: string
  difficulty :: string

definition opponent_symbol :: "SmartAI \<Rightarrow> string" where
  "opponent_symbol ai = (if symbol ai = ''X'' then ''O'' else ''X'')"

text \<open>\<open>_evaluate_board\<close>: the loop over the patterns returns at the first line.\<close>

fun evaluate_loop :: "SmartAI \<Rightarrow> string list \<Rightarrow> pattern list \<Rightarrow> py_error + int" where
  "evaluate_loop ai b [] = Inr 0"
| "evaluate_loop ai b (p # ps) =
     (case line_at b p of
        Inl e \<Rightarrow> Inl e
      | Inr (Some w) \<Rightarrow> Inr (if w = symbol ai then 10 else - 10)
      | Inr None \<Rightarrow> evaluate_loop ai b ps)"

definition evaluate_board :: "SmartAI \<Rightarrow> string list \<Rightarrow> py_error + int" where
  "evaluate_board ai b = evaluate_loop ai b WIN_PATTERNS"

text \<open>
  \<open>_minimax\<close> works on one list, which it changes and restores in place; the model passes
  the list through every call and returns it beside the pair \<open>(score, best_move)\<close>. The two
  \<open>for\<close> loops are \<open>max_loop\<close> and \<open>min_loop\<close>, with the loop index and the two loop
  variables as arguments. The write \<open>board[i] = player\<close> follows a read of \<open>board[i]\<close> and
  cannot fail. An exception ends the search with the list as it then is; the model keeps
  the exception only.
\<close>

type_synonym search_result = "(score \<times> nat option) \<times> string list"

function minimax :: "SmartAI \<Rightarrow> string list \<Rightarrow> string \<Rightarrow> bool \<Rightarrow> py_error + search_result"
  and max_loop :: "SmartAI \<Rightarrow> string list \<Rightarrow> string \<Rightarrow> nat \<Rightarrow> score \<Rightarrow> nat option \<Rightarrow> py_error + search_result"
  and min_loop :: "SmartAI \<Rightarrow> string list \<Rightarrow> string \<Rightarrow> nat \<Rightarrow> score \<Rightarrow> nat option \<Rightarrow> py_error + search_result"
where
  "minimax ai b player is_maximizing =
     (case evaluate_board ai b of
        Inl e \<Rightarrow> Inl e
      | Inr sc \<Rightarrow>
          if sc \<noteq> 0 \<or> '' '' \<notin> set b then Inr ((Fin sc, None), b)
          else if is_maximizing then max_loop ai b player 0 NegInf None
          else min_loop ai b player 0 PosInf None)"
| "max_loop ai b player i best_score best_move =
     (if 9 \<le> i then Inr ((best_score, best_move), b)
      else
        (case getitem b i of
           Inl e \<Rightarrow> Inl e
         | Inr c \<Rightarrow>
             if c = '' '' then
               (case minimax ai (b[i := player])
                       (if player = symbol ai then opponent_symbol ai else symbol ai) False of
                  Inl e \<Rightarrow> Inl e
                | Inr ((current_score, _), b') \<Rightarrow>
                    (case setitem b' i '' '' of
                       Inl e \<Rightarrow> Inl e
                     | Inr b'' \<Rightarrow>
                         if best_score < current_score
                         then max_loop ai b'' player (i + 1) current_score (Some i)
                         else max_loop ai b'' player (i + 1) best_score best_move))
             else max_loop ai b player (i + 1) best_score best_move))"
| "min_loop ai b player i best_score best_move =
     (if 9 \<le> i then Inr ((best_score, best_move), b)
      else
        (case getitem b i of
           Inl e \<Rightarrow> Inl e
         | Inr c \<Rightarrow>
             if c = '' '' then
               (case minimax ai (b[i := player])
                       (if player = symbol ai then opponent_symbol ai else symbol ai) True of
                  Inl e \<Rightarrow> Inl e
                | Inr ((current_score, _), b') \<Rightarrow>
                    (case setitem b' i '' '' of
                       Inl e \<Rightarrow> Inl e
                     | Inr b'' \<Rightarrow>
                         if current_score < best_score
                         then min_loop ai b'' player (i + 1) current_score (Some i)
                         else min_loop ai b'' player (i + 1) best_score best_move))
             else min_loop ai b player (i + 1) best_score best_move))"
  by pat_completeness auto


text \<open>
  Termination: a call of the search returns the list it was given, so the loop goes on
  with the same cells, and every placement of a mark lowers the number of blank cells.
\<close>

lemma list_update_self: "b ! i = v \<Longrightarrow> b[i := v] = b"
  by (metis list_update_id)

lemma count_list_update_blank:
  "i < length b \<Longrightarrow> b ! i = '' '' \<Longrightarrow> p \<noteq> '' '' \<Longrightarrow>
     Suc (count_list (b[i := p]) '' '') = count_list b '' ''"
proof (induction b arbitrary: i)
  case Nil
  then show ?case by simp
next
  case (Cons c cs)
  then show ?case by (cases i) auto
qed

lemma search_board_dom:
  "minimax_max_loop_min_loop_dom (Inl (ai, b, player, m)) \<Longrightarrow>
     (\<forall>r b'. minimax ai b player m = Inr (r, b') \<longrightarrow> b' = b)"
  "minimax_max_loop_min_loop_dom (Inr (Inl (ai1, b1, player1, i1, bs1, bm1))) \<Longrightarrow>
     (\<forall>r b'. max_loop ai1 b1 player1 i1 bs1 bm1 = Inr (r, b') \<longrightarrow> b' = b1)"
  "minimax_max_loop_min_loop_dom (Inr (Inr (ai2, b2, player2, i2, bs2, bm2))) \<Longrightarrow>
     (\<forall>r b'. min_loop ai2 b2 player2 i2 bs2 bm2 = Inr (r, b') \<longrightarrow> b' = b2)"
proof (induction rule: minimax_max_loop_min_loop.pinduct)
  case (1 ai b player is_maximizing)
  then show ?case
    by (auto simp: minimax.psimps split: sum.splits if_splits)
next
  case (2 ai b player i best_score best_move)
  show ?case
  proof (intro allI impI)
    fix r b'
    assume res: "max_loop ai b player i best_score best_move = Inr (r, b')"
    note eq = max_loop.psimps[OF "2.hyps"]
    show "b' = b"
    proof (cases "9 \<le> i")
      case True
      with res eq show ?thesis by simp
    next
      case False
      then obtain c where c: "getitem b i = Inr c" using res eq
        by (cases "getitem b i") auto
      then have ilen: "i < length b" and ci: "c = b ! i"
        by (auto simp: getitem_def split: if_splits)
      show ?thesis
      proof (cases "c = '' ''")
        case blank: True
        let ?p = "if player = symbol ai then opponent_symbol ai else symbol ai"
        obtain cs mv bb where inner: "minimax ai (b[i := player]) ?p False = Inr ((cs, mv), bb)"
          using res eq False c blank
          by (cases "minimax ai (b[i := player]) ?p False") auto
        have bb: "bb = b[i := player]"
          using "2.IH"(1)[OF False c blank] inner by blast
        have undo: "setitem bb i '' '' = Inr b"
          using bb ilen ci blank by (simp add: setitem_def list_update_same_conv)
        show ?thesis
        proof (cases "best_score < cs")
          case True
          have "max_loop ai b player (i + 1) cs (Some i) = Inr (r, b')"
            using res eq False c blank inner undo True by simp
          with "2.IH"(2)[OF False c blank inner refl refl undo True] show ?thesis by blast
        next
          case nb: False
          have "max_loop ai b player (i + 1) best_score best_move = Inr (r, b')"
            using res eq False c blank inner undo nb by simp
          with "2.IH"(3)[OF False c blank inner refl refl undo nb] show ?thesis by blast
        qed
      next
        case nonblank: False
        have "max_loop ai b player (i + 1) best_score best_move = Inr (r, b')"
          using res eq False c nonblank by simp
        with "2.IH"(4)[OF False c nonblank] show ?thesis by blast
      qed
    qed
  qed
next
  case (3 ai b player i best_score best_move)
  show ?case
  proof (intro allI impI)
    fix r b'
    assume res: "min_loop ai b player i best_score best_move = Inr (r, b')"
    note eq = min_loop.psimps[OF "3.hyps"]
    show "b' = b"
    proof (cases "9 \<le> i")
      case True
      with res eq show ?thesis by simp
    next
      case False
      then obtain c where c: "getitem b i = Inr c" using res eq
        by (cases "getitem b i") auto
      then have ilen: "i < length b" and ci: "c = b ! i"
        by (auto simp: getitem_def split: if_splits)
      show ?thesis
      proof (cases "c = '' ''")
        case blank: True
        let ?p = "if player = symbol ai then opponent_symbol ai else symbol ai"
        obtain cs mv bb where inner: "minimax ai (b[i := player]) ?p True = Inr ((cs, mv), bb)"
          using res eq False c blank
          by (cases "minimax ai (b[i := player]) ?p True") auto
        have bb: "bb = b[i := player]"
          using "3.IH"(1)[OF False c blank] inner by blast
        have undo: "setitem bb i '' '' = Inr b"
          using bb ilen ci blank by (simp add: setitem_def list_update_same_conv)
        show ?thesis
        proof (cases "cs < best_score")
          case True
          have "min_loop ai b player (i + 1) cs (Some i) = Inr (r, b')"
            using res eq False c blank inner undo True by simp
          with "3.IH"(2)[OF False c blank inner refl refl undo True] show ?thesis by blast
        next
          case nb: False
          have "min_loop ai b player (i + 1) best_score best_move = Inr (r, b')"
            using res eq False c blank inner undo nb by simp
          with "3.IH"(3)[OF False c blank inner refl refl undo nb] show ?thesis by blast
        qed
      next
        case nonblank: False
        have "min_loop ai b player (i + 1) best_score best_move = Inr (r, b')"
          using res eq False c nonblank by simp
        with "3.IH"(4)[OF False c nonblank] show ?thesis by blast
      qed
    qed
  qed
qed

definition search_measure :: "string list \<Rightarrow> string \<Rightarrow> nat" where
  "search_measure b player = 2 * count_list b '' '' + (if player = '' '' then 1 else 0)"

lemma search_terminates: "All minimax_max_loop_min_loop_dom"
proof (relation "measure (\<lambda>x. case x of
          Inl (ai, b, player, m) \<Rightarrow> 11 * search_measure b player + 10
        | Inr (Inl (ai, b, player, i, bs, bm)) \<Rightarrow> 11 * search_measure b player + (9 - i)
        | Inr (Inr (ai, b, player, i, bs, bm)) \<Rightarrow> 11 * search_measure b player + (9 - i))",
       goal_cases)
  case 1
  then show ?case by simp
next
  case (2 ai b player is_maximizing sc)
  then show ?case by simp
next
  case (3 ai b player is_maximizing sc)
  then show ?case by simp
next
  case (4 ai b player i best_score best_move c)
  then show ?case
    using count_list_update_blank[of i b player]
    by (auto simp: search_measure_def getitem_def opponent_symbol_def list_update_self
             split: if_splits)
next
  case (5 ai b player i best_score best_move c r x y xa ya bb)
  then have "minimax_max_loop_min_loop_dom
      (Inl (ai, b[i := player], if player = symbol ai then opponent_symbol ai else symbol ai, False))"
    by simp
  from search_board_dom(1)[OF this] 5 have "y = b[i := player]" by (cases x) auto
  with 5 show ?case
    by (auto simp: setitem_def getitem_def list_update_self split: if_splits)
next
  case (6 ai b player i best_score best_move c r x y xa ya bb)
  then have "minimax_max_loop_min_loop_dom
      (Inl (ai, b[i := player], if player = symbol ai then opponent_symbol ai else symbol ai, False))"
    by simp
  from search_board_dom(1)[OF this] 6 have "y = b[i := player]" by (cases x) auto
  with 6 show ?case
    by (auto simp: setitem_def getitem_def list_update_self split: if_splits)
next
  case 7
  then show ?case by simp
next
  case (8 ai b player i best_score best_move c)
  then show ?case
    using count_list_update_blank[of i b player]
    by (auto simp: search_measure_def getitem_def opponent_symbol_def list_update_self
             split: if_splits)
next
  case (9 ai b player i best_score best_move c r x y xa ya bb)
  then have "minimax_max_loop_min_loop_dom
      (Inl (ai, b[i := player], if player = symbol ai then opponent_symbol ai else symbol ai, True))"
    by simp
  from search_board_dom(1)[OF this] 9 have "y = b[i := player]" by (cases x) auto
  with 9 show ?case
    by (auto simp: setitem_def getitem_def list_update_self split: if_splits)
next
  case (10 ai b player i best_score best_move c r x y xa ya bb)
  then have "minimax_max_loop_min_loop_dom
      (Inl (ai, b[i := player], if player = symbol ai then opponent_symbol ai else symbol ai, True))"
    by simp
  from search_board_dom(1)[OF this] 10 have "y = b[i := player]" by (cases x) auto
  with 10 show ?case
    by (auto simp: setitem_def getitem_def list_update_self split: if_splits)
next
  case 11
  then show ?case by simp
qed


termination minimax
  by (rule search_terminates)

declare minimax.simps [simp del] max_loop.simps [simp del] min_loop.simps [simp del]


lemma minimax_board: "minimax ai b player m = Inr (r, b') \<Longrightarrow> b' = b"
  using search_board_dom(1)[of ai b player m] search_terminates by blast

subsection \<open>The human player\<close>

text \<open>
  What the console delivers at one prompt of \<open>HumanPlayer.get_move\<close>:
  \<open>Entered n\<close>: \<open>int(input(...))\<close> evaluates to \<open>n\<close>;
  \<open>Unparsable\<close>: \<open>int\<close> raises \<open>ValueError\<close>;
  \<open>Interrupt\<close>: \<open>input\<close> raises \<open>KeyboardInterrupt\<close>.
  At the end of the input \<open>input\<close> raises \<open>EOFError\<close>. \<open>get_move\<close> returns the position
  (or the exception that leaves it) and the input that is left. Its \<open>except\<close> clause
  catches \<open>ValueError\<close> and \<open>KeyboardInterrupt\<close>, and the loop goes on after both.
\<close>

datatype input_event = Entered int | Unparsable | Interrupt

fun HumanPlayer_get_move ::
  "TicTacToe \<Rightarrow> input_event list \<Rightarrow> (py_error + int) \<times> input_event list" where
  "HumanPlayer_get_move game [] = (Inl EOFError, [])"
| "HumanPlayer_get_move game (Entered n # rest) =
     (case is_valid_move game (n - 1) of
        Inl e \<Rightarrow> (Inl e, rest)
      | Inr valid \<Rightarrow>
          if valid then (Inr (n - 1), rest) else HumanPlayer_get_move game rest)"
| "HumanPlayer_get_move game (Unparsable # rest) = HumanPlayer_get_move game rest"
| "HumanPlayer_get_move game (Interrupt # rest) = HumanPlayer_get_move game rest"


subsection \<open>Random choices\<close>

text \<open>
  The random source is an argument of the model. \<open>random.choice(seq)\<close> raises \<open>IndexError\<close>
  on an empty sequence and returns \<open>seq[k]\<close> for a drawn index \<open>k\<close> below the length
  otherwise; the argument \<open>r\<close> stands for the draw \<open>r mod len(seq)\<close>, so that every \<open>r\<close>
  gives a draw in range and every draw in range comes from some \<open>r\<close>.
\<close>

definition random_choice :: "nat \<Rightarrow> 'a list \<Rightarrow> py_error + 'a" where
  "random_choice r xs = (if xs = [] then Inl IndexError else Inr (xs ! (r mod length xs)))"

text \<open>\<open>RandomAI.get_move\<close>.\<close>

definition RandomAI_get_move :: "nat \<Rightarrow> TicTacToe \<Rightarrow> py_error + int" where
  "RandomAI_get_move r game =
     (case get_available_moves game of
        Inl e \<Rightarrow> Inl e
      | Inr available_moves \<Rightarrow> random_choice r available_moves)"

text \<open>
  \<open>SmartAI.get_move\<close>. The argument \<open>low\<close> is the outcome of the test
  \<open>random.random() < 0.3\<close>, which is made only at difficulty \<open>"easy"\<close>. The search gets the
  copy of the board; when it returns no move, the first available move is taken.
\<close>

definition SmartAI_get_move :: "SmartAI \<Rightarrow> bool \<Rightarrow> nat \<Rightarrow> TicTacToe \<Rightarrow> py_error + int" where
  "SmartAI_get_move ai low r game =
     (if difficulty ai = ''easy'' \<and> low then
        (case get_available_moves game of
           Inl e \<Rightarrow> Inl e
         | Inr available_moves \<Rightarrow> random_choice r available_moves)
      else
        (case minimax ai (get_board_copy game) (symbol ai) True of
           Inl e \<Rightarrow> Inl e
         | Inr ((_, best_move), _) \<Rightarrow>
             (case best_move of
                Some i \<Rightarrow> Inr (int i)
              | None \<Rightarrow>
                  (case get_available_moves game of
                     Inl e \<Rightarrow> Inl e
                   | Inr available_moves \<Rightarrow> getitem available_moves 0))))"

subsection \<open>The list objects of the search\<close>

text \<open>
  The list objects. A store holds the cells of every list object, an address is an index
  into it. \<open>list_copy\<close> is \<open>board.copy()\<close>: a new object with the same cells.
  \<open>minimax_at\<close> is the search on the list object at an address: the search changes that
  object and no other. \<open>SmartAI_get_move_at\<close> is \<open>SmartAI.get_move\<close> for a game whose
  board is the object at address \<open>a\<close>.
\<close>

type_synonym store = "string list list"

definition list_copy :: "store \<Rightarrow> nat \<Rightarrow> nat \<times> store" where
  "list_copy h a = (length h, h @ [h ! a])"

definition minimax_at ::
  "SmartAI \<Rightarrow> store \<Rightarrow> nat \<Rightarrow> string \<Rightarrow> bool \<Rightarrow> py_error + ((score \<times> nat option) \<times> store)" where
  "minimax_at ai h a player m =
     (case minimax ai (h ! a) player m of
        Inl e \<Rightarrow> Inl e
      | Inr (res, b') \<Rightarrow> Inr (res, h[a := b']))"

definition SmartAI_get_move_at ::
  "SmartAI \<Rightarrow> bool \<Rightarrow> nat \<Rightarrow> store \<Rightarrow> nat \<Rightarrow> py_error + (int \<times> store)" where
  "SmartAI_get_move_at ai low r h a =
     (if difficulty ai = ''easy'' \<and> low then
        (case available_from (h ! a) [0..<9] of
           Inl e \<Rightarrow> Inl e
         | Inr available_moves \<Rightarrow>
             (case random_choice r available_moves of
                Inl e \<Rightarrow> Inl e
              | Inr position \<Rightarrow> Inr (position, h)))
      else
        (case list_copy h a of
           (c, h1) \<Rightarrow>
             (case minimax_at ai h1 c (symbol ai) True of
                Inl e \<Rightarrow> Inl e
              | Inr ((_, best_move), h2) \<Rightarrow>
                  (case best_move of
                     Some i \<Rightarrow> Inr (int i, h2)
                   | None \<Rightarrow>
                       (case available_from (h2 ! a) [0..<9] of
                          Inl e \<Rightarrow> Inl e
                        | Inr available_moves \<Rightarrow>
                            (case getitem available_moves 0 of
                               Inl e \<Rightarrow> Inl e
                             | Inr position \<Rightarrow> Inr (position, h2)))))))"


section \<open>The console session (tictactoe/interface.py)\<close>

text \<open>
  A player is its \<open>get_move\<close>: a function of the game and the pending console input.
  \<open>play_game\<close> ends by returning the game state, by the \<open>return\<close> of its
  \<open>except KeyboardInterrupt\<close> clause, or with an exception it does not catch. The loop
  may run for ever (a player may offer an illegal move again and again), so the result is
  an option. Printing is left out.
\<close>

type_synonym player = "TicTacToe \<Rightarrow> input_event list \<Rightarrow> (py_error + int) \<times> input_event list"

datatype session_end = Returned GameState | Interrupted | Raised py_error

partial_function (option) play_game ::
  "player \<Rightarrow> player \<Rightarrow> TicTacToe \<Rightarrow> input_event list \<Rightarrow>
     (session_end \<times> TicTacToe \<times> input_event list) option" where
  "play_game player_x player_o game events =
     (if is_game_over game then Some (Returned (game_state game), game, events)
      else if current_player game \<noteq> ''X'' \<and> current_player game \<noteq> ''O''
      then Some (Raised KeyError, game, events)
      else
        (case (if current_player game = ''X'' then player_x else player_o) game events of
           (Inl e, rest) \<Rightarrow>
             if e = KeyboardInterrupt then Some (Interrupted, game, rest)
             else Some (Raised e, game, rest)
         | (Inr move, rest) \<Rightarrow>
             (case make_move game move of
                Inl e \<Rightarrow> Some (Raised e, game, rest)
              | Inr (_, game') \<Rightarrow> play_game player_x player_o game' rest)))"


section \<open>Statistics (tictactoe/utils.py)\<close>

subsection \<open>Floats\<close>

text \<open>
  A float is modelled by the rational number it denotes; the sign of zero is not
  represented. \<open>binary64 x\<close> is the double nearest to \<open>x\<close> (ties to even, 53 bits,
  exponents down to the subnormal range), or \<open>OverflowError\<close> beyond the range of
  doubles. \<open>true_div\<close> is \<open>/\<close> on two integers, which CPython rounds correctly.
  \<open>py_round x ndigits\<close> is \<open>round(x, ndigits)\<close> on a float for \<open>ndigits \<ge> 0\<close>: the exact
  value of \<open>x\<close> rounded to \<open>ndigits\<close> decimals (ties to even), then the nearest double;
  beyond 323 decimals \<open>x\<close> itself.
\<close>

function bit_length :: "int \<Rightarrow> nat" where
  "bit_length k = (if k \<le> 0 then 0 else Suc (bit_length (k div 2)))"
  by pat_completeness auto
termination
  by (relation "measure nat") auto

declare bit_length.simps [simp del]

definition pow2 :: "int \<Rightarrow> rat" where
  "pow2 e = (if 0 \<le> e then 2 ^ nat e else 1 / 2 ^ nat (- e))"

definition floor_log2 :: "rat \<Rightarrow> int" where
  "floor_log2 x =
     (case quotient_of x of
        (p, q) \<Rightarrow>
          (let e = int (bit_length p) - int (bit_length q)
           in if pow2 e \<le> x then e else e - 1))"

definition round_half_even :: "rat \<Rightarrow> int" where
  "round_half_even x =
     (let f = \<lfloor>x\<rfloor>; d = x - of_int f
      in if d < 1 / 2 then f
         else if 1 / 2 < d then f + 1
         else if even f then f else f + 1)"

definition binary64 :: "rat \<Rightarrow> py_error + rat" where
  "binary64 x =
     (if x = 0 then Inr 0
      else
        (let e = max (floor_log2 \<bar>x\<bar>) (- 1022);
             q = pow2 (e - 52);
             y = of_int (round_half_even (x / q)) * q
         in if 1024 \<le> floor_log2 \<bar>y\<bar> then Inl OverflowError else Inr y))"

definition true_div :: "int \<Rightarrow> int \<Rightarrow> py_error + rat" where
  "true_div a b = (if b = 0 then Inl ZeroDivisionError else binary64 (of_int a / of_int b))"

definition py_round :: "rat \<Rightarrow> nat \<Rightarrow> py_error + rat" where
  "py_round x ndigits =
     (if 323 < ndigits then Inr x
      else binary64 (of_int (round_half_even (x * 10 ^ ndigits)) / 10 ^ ndigits))"

subsection \<open>\<open>GameStats\<close>\<close>

text \<open>
  \<open>wins\<close> is a \<open>defaultdict(int)\<close>: reading a missing key stores 0 under it and returns 0.
  \<open>get_stats\<close> returns the dictionary (a record of its five entries) and the object, whose
  \<open>wins\<close> the two reads may have extended.
\<close>

record GameStats =
  games_played :: int
  wins :: "string \<rightharpoonup> int"
  draws :: int
  total_moves :: int

definition GameStats_init :: GameStats where
  "GameStats_init = \<lparr>games_played = 0, wins = Map.empty, draws = 0, total_moves = 0\<rparr>"

definition defaultdict_getitem :: "('k \<rightharpoonup> int) \<Rightarrow> 'k \<Rightarrow> int \<times> ('k \<rightharpoonup> int)" where
  "defaultdict_getitem d k = (case d k of None \<Rightarrow> (0, d(k \<mapsto> 0)) | Some v \<Rightarrow> (v, d))"

definition record_game :: "GameStats \<Rightarrow> GameState \<Rightarrow> int \<Rightarrow> GameStats" where
  "record_game st final_state moves =
     (let st1 = st\<lparr>games_played := games_played st + 1,
                     total_moves := total_moves st + moves\<rparr>
      in if final_state = X_WINS then
           (case defaultdict_getitem (wins st1) ''X'' of
              (v, w) \<Rightarrow> st1\<lparr>wins := w(''X'' \<mapsto> v + 1)\<rparr>)
         else if final_state = O_WINS then
           (case defaultdict_getitem (wins st1) ''O'' of
              (v, w) \<Rightarrow> st1\<lparr>wins := w(''O'' \<mapsto> v + 1)\<rparr>)
         else if final_state = DRAW then st1\<lparr>draws := draws st1 + 1\<rparr>
         else st1)"

record stats =
  stats_games_played :: int
  stats_x_wins :: int
  stats_o_wins :: int
  stats_draws :: int
  stats_average_moves :: rat

definition get_stats :: "GameStats \<Rightarrow> py_error + (stats \<times> GameStats)" where
  "get_stats st =
     (case defaultdict_getitem (wins st) ''X'' of
        (x_wins, w1) \<Rightarrow>
          (case defaultdict_getitem w1 ''O'' of
             (o_wins, w2) \<Rightarrow>
               (case true_div (total_moves st) (max 1 (games_played st)) of
                  Inl e \<Rightarrow> Inl e
                | Inr mean \<Rightarrow>
                    (case py_round mean 1 of
                       Inl e \<Rightarrow> Inl e
                     | Inr average \<Rightarrow>
                         Inr (\<lparr>stats_games_played = games_played st, stats_x_wins = x_wins,
                               stats_o_wins = o_wins, stats_draws = draws st,
                               stats_average_moves = average\<rparr>,
                              st\<lparr>wins := w2\<rparr>)))))"

definition GameStats_reset :: "GameStats \<Rightarrow> GameStats" where
  "GameStats_reset st = st\<lparr>games_played := 0, wins := Map.empty, draws := 0, total_moves := 0\<rparr>"


section \<open>Properties of the game engine\<close>

subsection \<open>Lines, legal moves and well-formed objects\<close>

text \<open>
  \<open>is_line b p\<close>: the three cells of pattern \<open>p\<close> are equal and not blank.
  \<open>pattern_in n p\<close>: the indices of \<open>p\<close> are below \<open>n\<close>.
\<close>

definition is_line :: "string list \<Rightarrow> pattern \<Rightarrow> bool" where
  "is_line b p = (case p of (p0, p1, p2) \<Rightarrow> b ! p0 = b ! p1 \<and> b ! p1 = b ! p2 \<and> b ! p2 \<noteq> '' '')"

definition pattern_in :: "nat \<Rightarrow> pattern \<Rightarrow> bool" where
  "pattern_in n p = (case p of (p0, p1, p2) \<Rightarrow> p0 < n \<and> p1 < n \<and> p2 < n)"

lemma WIN_PATTERNS_in: "p \<in> set WIN_PATTERNS \<Longrightarrow> pattern_in 9 p"
  by (auto simp: WIN_PATTERNS_def pattern_in_def)

lemma line_at_in:
  "pattern_in (length b) p \<Longrightarrow>
     line_at b p = Inr (if is_line b p then Some (b ! fst p) else None)"
  by (auto simp: line_at_def is_line_def pattern_in_def getitem_def split: prod.splits)

lemma update_loop_find:
  "\<forall>p \<in> set ps. pattern_in (length (board s)) p \<Longrightarrow>
     update_loop ps s =
       Inr (case find (is_line (board s)) ps of
              Some p \<Rightarrow> s\<lparr>winner := Some (board s ! fst p), winning_pattern := Some p,
                          game_state := (if board s ! fst p = ''X'' then X_WINS else O_WINS)\<rparr>
            | None \<Rightarrow> if moves_count s = 9 then s\<lparr>game_state := DRAW\<rparr> else s)"
  by (induction ps) (auto simp: line_at_in)

lemma update_game_state_find:
  "length (board s) = 9 \<Longrightarrow>
     update_game_state s =
       Inr (case find (is_line (board s)) WIN_PATTERNS of
              Some p \<Rightarrow> s\<lparr>winner := Some (board s ! fst p), winning_pattern := Some p,
                          game_state := (if board s ! fst p = ''X'' then X_WINS else O_WINS)\<rparr>
            | None \<Rightarrow> if moves_count s = 9 then s\<lparr>game_state := DRAW\<rparr> else s)"
  unfolding update_game_state_def
  by (rule update_loop_find) (simp add: WIN_PATTERNS_in)

lemma update_loop_frame:
  "update_loop ps s = Inr s' \<Longrightarrow>
     board s' = board s \<and> moves_count s' = moves_count s \<and>
     current_player s' = current_player s"
  by (induction ps) (auto split: sum.splits option.splits if_splits)

lemma update_game_state_frame:
  "update_game_state s = Inr s' \<Longrightarrow>
     board s' = board s \<and> moves_count s' = moves_count s \<and>
     current_player s' = current_player s"
  unfolding update_game_state_def by (rule update_loop_frame)

text \<open>
  The legality of a move as the specification words it: the position is in \<open>0..8\<close>, the
  cell there is blank and the game is still going on.
\<close>

definition legal :: "TicTacToe \<Rightarrow> int \<Rightarrow> bool" where
  "legal s position =
     (0 \<le> position \<and> position \<le> 8 \<and> board s ! nat position = '' '' \<and> game_state s = ONGOING)"

lemma is_valid_move_legal:
  "length (board s) = 9 \<Longrightarrow> is_valid_move s position = Inr (legal s position)"
  by (auto simp: is_valid_move_def legal_def getitem_def)


text \<open>
  A well-formed object has nine cells, each blank or a mark, and a mark as current player.
\<close>

definition well_formed :: "TicTacToe \<Rightarrow> bool" where
  "well_formed s =
     (length (board s) = 9 \<and> set (board s) \<subseteq> {'' '', ''X'', ''O''} \<and>
      current_player s \<in> {''X'', ''O''})"

text \<open>Successive calls of \<open>make_move\<close> on one object, whatever each call returns.\<close>

fun make_moves :: "TicTacToe \<Rightarrow> int list \<Rightarrow> py_error + TicTacToe" where
  "make_moves s [] = Inr s"
| "make_moves s (position # rest) =
     (case make_move s position of
        Inl e \<Rightarrow> Inl e
      | Inr (_, s') \<Rightarrow> make_moves s' rest)"

text \<open>
  The objects that \<open>__init__\<close>, \<open>reset\<close> and \<open>make_move\<close> (with any integer) can produce.
\<close>

inductive reachable :: "TicTacToe \<Rightarrow> bool" where
  reachable_init: "reachable init"
| reachable_reset: "reachable s \<Longrightarrow> reachable (reset s)"
| reachable_move: "reachable s \<Longrightarrow> make_move s position = Inr (ok, s') \<Longrightarrow> reachable s'"

lemma make_move_accepted:
  assumes "length (board s) = 9" and "make_move s position = Inr (True, s')"
  shows "legal s position"
    and "\<exists>u. update_game_state
                (s\<lparr>board := (board s)[nat position := current_player s],
                   moves_count := moves_count s + 1\<rparr>) = Inr u \<and>
              s' = (if game_state u = ONGOING
                    then u\<lparr>current_player := (if current_player u = ''X'' then ''O'' else ''X'')\<rparr>
                    else u)"
  using assms
  by (auto simp: make_move_def is_valid_move_legal setitem_def split: sum.splits if_splits)

lemma make_move_rejected:
  "make_move s position = Inr (False, s') \<Longrightarrow> s' = s"
  by (auto simp: make_move_def split: sum.splits if_splits)

lemma find_first_index:
  "find P xs = Some x \<Longrightarrow> \<exists>k<length xs. x = xs ! k \<and> P (xs ! k) \<and> (\<forall>j<k. \<not> P (xs ! j))"
  by (auto simp: find_Some_iff)

lemma find_none_all: "find P xs = None \<Longrightarrow> \<forall>x \<in> set xs. \<not> P x"
  by (simp add: find_None_iff)

lemma is_line_cell:
  "is_line b p \<Longrightarrow> pattern_in (length b) p \<Longrightarrow> b ! fst p \<in> set b \<and> b ! fst p \<noteq> '' ''"
  by (auto simp: is_line_def pattern_in_def split: prod.splits)

lemma outcome_after_accepted_move:
  assumes wf: "well_formed s" and mv: "make_move s position = Inr (True, s')"
  shows "(\<exists>k<length WIN_PATTERNS.
            is_line (board s') (WIN_PATTERNS ! k) \<and>
            (\<forall>j<k. \<not> is_line (board s') (WIN_PATTERNS ! j)) \<and>
            winning_pattern s' = Some (WIN_PATTERNS ! k) \<and>
            winner s' = Some (board s' ! fst (WIN_PATTERNS ! k)) \<and>
            (winner s' = Some ''X'' \<and> game_state s' = X_WINS \<or>
             winner s' = Some ''O'' \<and> game_state s' = O_WINS))
       \<or> ((\<forall>p \<in> set WIN_PATTERNS. \<not> is_line (board s') p) \<and>
           game_state s' = (if moves_count s' = 9 then DRAW else ONGOING))"
proof -
  let ?b = "(board s)[nat position := current_player s]"
  let ?t = "s\<lparr>board := ?b, moves_count := moves_count s + 1\<rparr>"
  have len: "length (board s) = 9" using wf by (simp add: well_formed_def)
  from make_move_accepted[OF len mv] obtain u where
    leg: "legal s position" and u: "update_game_state ?t = Inr u" and
    s': "s' = (if game_state u = ONGOING
               then u\<lparr>current_player := (if current_player u = ''X'' then ''O'' else ''X'')\<rparr>
               else u)"
    by blast
  have lent: "length (board ?t) = 9" using len by simp
  have cells: "set ?b \<subseteq> {'' '', ''X'', ''O''}"
    using wf set_update_subset_insert[of "board s" "nat position" "current_player s"]
    by (auto simp: well_formed_def)
  have ongoing: "game_state s = ONGOING" using leg by (simp add: legal_def)
  have bs': "board s' = ?b"
    using update_game_state_frame[OF u] s' by (simp split: if_splits)
  have ms': "moves_count s' = moves_count s + 1"
    using update_game_state_frame[OF u] s' by (simp split: if_splits)
  show ?thesis
  proof (cases "find (is_line ?b) WIN_PATTERNS")
    case None
    then have ueq: "u = (if moves_count s + 1 = 9 then ?t\<lparr>game_state := DRAW\<rparr> else ?t)"
      using u update_game_state_find[OF lent] by simp
    have "\<forall>p \<in> set WIN_PATTERNS. \<not> is_line (board s') p"
      using find_none_all[OF None] bs' by simp
    moreover have "game_state s' = (if moves_count s' = 9 then DRAW else ONGOING)"
      using ueq s' ongoing ms' by (simp split: if_splits)
    ultimately show ?thesis by blast
  next
    case (Some p)
    then have ueq: "u = ?t\<lparr>winner := Some (?b ! fst p), winning_pattern := Some p,
                            game_state := (if ?b ! fst p = ''X'' then X_WINS else O_WINS)\<rparr>"
      using u update_game_state_find[OF lent] by simp
    from find_first_index[OF Some] obtain k where
      k: "k < length WIN_PATTERNS" "p = WIN_PATTERNS ! k" "is_line ?b (WIN_PATTERNS ! k)"
         "\<forall>j<k. \<not> is_line ?b (WIN_PATTERNS ! j)"
      by blast
    have "pattern_in (length ?b) p"
      using k(1,2) WIN_PATTERNS_in[of p] len by simp
    with is_line_cell[of ?b p] k(2,3) cells
    have mark: "?b ! fst p = ''X'' \<or> ?b ! fst p = ''O''" by auto
    have s'u: "s' = u" using s' ueq by (simp split: if_splits)
    have "winning_pattern s' = Some (WIN_PATTERNS ! k)"
      using s'u ueq k(2) by simp
    moreover have "winner s' = Some (board s' ! fst (WIN_PATTERNS ! k))"
      using s'u ueq k(2) bs' by simp
    moreover have "winner s' = Some ''X'' \<and> game_state s' = X_WINS \<or>
             winner s' = Some ''O'' \<and> game_state s' = O_WINS"
      using s'u ueq mark by auto
    ultimately show ?thesis using k bs' by auto
  qed
qed

subsection \<open>The move count\<close>

definition count_invariant :: "TicTacToe \<Rightarrow> bool" where
  "count_invariant s =
     (length (board s) = 9 \<and> current_player s \<in> {''X'', ''O''} \<and>
      moves_count s = int (length (filter (\<lambda>c. c \<noteq> '' '') (board s))))"

lemma filter_update_blank:
  "i < length b \<Longrightarrow> b ! i = '' '' \<Longrightarrow> p \<noteq> '' '' \<Longrightarrow>
     length (filter (\<lambda>c. c \<noteq> '' '') (b[i := p])) = Suc (length (filter (\<lambda>c. c \<noteq> '' '') b))"
proof (induction b arbitrary: i)
  case Nil
  then show ?case by simp
next
  case (Cons c cs)
  then show ?case by (cases i) auto
qed

lemma filter_count_blank:
  "length (filter (\<lambda>c. c \<noteq> '' '') b) + count_list b '' '' = length b"
  by (induction b) auto

lemma count_invariant_init: "count_invariant init"
  by (simp add: count_invariant_def init_def)

lemma count_invariant_reset: "count_invariant (reset s)"
  by (simp add: count_invariant_def reset_def)

lemma count_invariant_move:
  assumes inv: "count_invariant s" and mv: "make_move s position = Inr (ok, s')"
  shows "count_invariant s'"
proof (cases ok)
  case False
  with mv make_move_rejected[of s position s'] have "s' = s" by simp
  with inv show ?thesis by simp
next
  case True
  let ?b = "(board s)[nat position := current_player s]"
  let ?t = "s\<lparr>board := ?b, moves_count := moves_count s + 1\<rparr>"
  have len: "length (board s) = 9" using inv by (simp add: count_invariant_def)
  have mv': "make_move s position = Inr (True, s')" using mv True by simp
  from make_move_accepted[OF len mv'] obtain u where
    leg: "legal s position" and u: "update_game_state ?t = Inr u" and
    s': "s' = (if game_state u = ONGOING
               then u\<lparr>current_player := (if current_player u = ''X'' then ''O'' else ''X'')\<rparr>
               else u)"
    by blast
  note fr = update_game_state_frame[OF u]
  have pos: "nat position < length (board s)" "board s ! nat position = '' ''"
    using leg len by (auto simp: legal_def)
  have cp: "current_player s \<noteq> '' ''" using inv by (auto simp: count_invariant_def)
  have "length (filter (\<lambda>c. c \<noteq> '' '') ?b) = Suc (length (filter (\<lambda>c. c \<noteq> '' '') (board s)))"
    using filter_update_blank[OF pos cp] .
  then show ?thesis
    using inv fr s' by (auto simp: count_invariant_def split: if_splits)
qed

lemma reachable_count_invariant: "reachable s \<Longrightarrow> count_invariant s"
  by (induction rule: reachable.induct)
     (auto intro: count_invariant_init count_invariant_reset count_invariant_move)

subsection \<open>Claims about the engine\<close>

text \<open>
  C1. For every object with nine cells and every integer position: an illegal move
  (position outside \<open>0..8\<close>, cell not blank, or game not \<open>ONGOING\<close>) makes
  \<open>make_move\<close> return \<open>False\<close> and leaves the whole object as it was; a legal move
  writes the current player's mark into the cell, adds one to the move count, takes game
  state, winner and winning pattern from \<open>_update_game_state\<close> run on the new board and
  count, switches the current player only if that game state is still \<open>ONGOING\<close>, and
  returns \<open>True\<close>. \<open>is_valid_move\<close> is exactly the legality test.
\<close>

theorem make_move_spec:
  assumes "length (board s) = 9"
  shows "is_valid_move s position = Inr (legal s position) \<and>
         (if legal s position
          then (\<exists>u s'. update_game_state
                           (s\<lparr>board := (board s)[nat position := current_player s],
                              moves_count := moves_count s + 1\<rparr>) = Inr u \<and>
                   make_move s position = Inr (True, s') \<and>
                   board s' = (board s)[nat position := current_player s] \<and>
                   moves_count s' = moves_count s + 1 \<and>
                   game_state s' = game_state u \<and>
                   winner s' = winner u \<and> winning_pattern s' = winning_pattern u \<and>
                   current_player s' =
                     (if game_state u = ONGOING
                      then (if current_player s = ''X'' then ''O'' else ''X'')
                      else current_player s))
          else make_move s position = Inr (False, s))"
proof (cases "legal s position")
  case False
  with assms show ?thesis by (simp add: make_move_def is_valid_move_legal)
next
  case True
  let ?t = "s\<lparr>board := (board s)[nat position := current_player s],
               moves_count := moves_count s + 1\<rparr>"
  have pos: "nat position < length (board s)" using True assms by (auto simp: legal_def)
  have len: "length (board ?t) = 9" using assms by simp
  obtain u where u: "update_game_state ?t = Inr u"
    using update_game_state_find[OF len] by blast
  note ub = update_game_state_frame[OF u]
  show ?thesis
    using True assms pos u ub
    by (simp add: make_move_def is_valid_move_legal setitem_def)
qed

theorem make_move_spec_witness:
  "length (board init) = 9 \<and> legal init 4 \<and>
   (\<exists>s'. make_move init 4 = Inr (True, s') \<and>
          board s' = (board init)[4 := ''X''] \<and> moves_count s' = 1) \<and>
   \<not> legal init 9 \<and> make_move init 9 = Inr (False, init) \<and>
   \<not> legal init (- 1) \<and> make_move init (- 1) = Inr (False, init)"
proof -
  have len: "length (board init) = 9" by (simp add: init_def)
  have l4: "legal init 4" by (simp add: legal_def init_def)
  have l9: "\<not> legal init 9" by (simp add: legal_def)
  have lm: "\<not> legal init (- 1)" by (simp add: legal_def)
  from make_move_spec[OF len, of 4] l4
  have "\<exists>s'. make_move init 4 = Inr (True, s') \<and>
          board s' = (board init)[4 := ''X''] \<and> moves_count s' = 1"
    by (auto simp: init_def)
  moreover from make_move_spec[OF len, of 9] l9
  have "make_move init 9 = Inr (False, init)" by simp
  moreover from make_move_spec[OF len, of "- 1"] lm
  have "make_move init (- 1) = Inr (False, init)" by simp
  ultimately show ?thesis using len l4 l9 lm by blast
qed

text \<open>
  C2. After an accepted move on a well-formed object the outcome is the one of a scan of
  the eight patterns in the order rows, columns, diagonals: if some pattern is a line,
  the winning pattern is the first line in that order, the winner is its mark and the
  game state is that mark's win; otherwise the game state is \<open>DRAW\<close> exactly when the
  move count is 9 and \<open>ONGOING\<close> if not. From a new game the moves 0, 4, 1, 7, 2 end in
  \<open>X_WINS\<close> with winning pattern \<open>(0, 1, 2)\<close>.
\<close>

theorem outcome_recomputation:
  "(\<forall>s position s'.
      well_formed s \<and> make_move s position = Inr (True, s') \<longrightarrow>
        (\<exists>k<length WIN_PATTERNS.
            is_line (board s') (WIN_PATTERNS ! k) \<and>
            (\<forall>j<k. \<not> is_line (board s') (WIN_PATTERNS ! j)) \<and>
            winning_pattern s' = Some (WIN_PATTERNS ! k) \<and>
            winner s' = Some (board s' ! fst (WIN_PATTERNS ! k)) \<and>
            (winner s' = Some ''X'' \<and> game_state s' = X_WINS \<or>
             winner s' = Some ''O'' \<and> game_state s' = O_WINS))
        \<or> ((\<forall>p \<in> set WIN_PATTERNS. \<not> is_line (board s') p) \<and>
            game_state s' = (if moves_count s' = 9 then DRAW else ONGOING))) \<and>
   WIN_PATTERNS =
     [(0, 1, 2), (3, 4, 5), (6, 7, 8), (0, 3, 6), (1, 4, 7), (2, 5, 8), (0, 4, 8), (2, 4, 6)] \<and>
   (\<exists>s. make_moves init [0, 4, 1, 7, 2] = Inr s \<and>
        game_state s = X_WINS \<and> winner s = Some ''X'' \<and>
        winning_pattern s = Some (0, 1, 2))"
proof (intro conjI allI impI)
  fix s position s'
  assume "well_formed s \<and> make_move s position = Inr (True, s')"
  then show "(\<exists>k<length WIN_PATTERNS.
            is_line (board s') (WIN_PATTERNS ! k) \<and>
            (\<forall>j<k. \<not> is_line (board s') (WIN_PATTERNS ! j)) \<and>
            winning_pattern s' = Some (WIN_PATTERNS ! k) \<and>
            winner s' = Some (board s' ! fst (WIN_PATTERNS ! k)) \<and>
            (winner s' = Some ''X'' \<and> game_state s' = X_WINS \<or>
             winner s' = Some ''O'' \<and> game_state s' = O_WINS))
        \<or> ((\<forall>p \<in> set WIN_PATTERNS. \<not> is_line (board s') p) \<and>
            game_state s' = (if moves_count s' = 9 then DRAW else ONGOING))"
    using outcome_after_accepted_move[of s position s'] by blast
next
  show "WIN_PATTERNS =
     [(0, 1, 2), (3, 4, 5), (6, 7, 8), (0, 3, 6), (1, 4, 7), (2, 5, 8), (0, 4, 8), (2, 4, 6)]"
    by (simp add: WIN_PATTERNS_def)
next
  have "make_moves init [0, 4, 1, 7, 2] =
    Inr \<lparr>board = [''X'', ''X'', ''X'', '' '', ''O'', '' '', '' '', ''O'', '' ''],
         current_player = ''X'', game_state = X_WINS, moves_count = 5,
         winner = Some ''X'', winning_pattern = Some (0, 1, 2)\<rparr>"
    by code_simp
  then show "\<exists>s. make_moves init [0, 4, 1, 7, 2] = Inr s \<and>
        game_state s = X_WINS \<and> winner s = Some ''X'' \<and>
        winning_pattern s = Some (0, 1, 2)"
    by simp
qed

theorem outcome_recomputation_witness:
  "well_formed
     \<lparr>board = [''X'', ''X'', '' '', '' '', ''O'', '' '', '' '', ''O'', '' ''],
      current_player = ''X'', game_state = ONGOING, moves_count = 4,
      winner = None, winning_pattern = None\<rparr> \<and>
   make_move
     \<lparr>board = [''X'', ''X'', '' '', '' '', ''O'', '' '', '' '', ''O'', '' ''],
      current_player = ''X'', game_state = ONGOING, moves_count = 4,
      winner = None, winning_pattern = None\<rparr> 2 =
   Inr (True,
     \<lparr>board = [''X'', ''X'', ''X'', '' '', ''O'', '' '', '' '', ''O'', '' ''],
      current_player = ''X'', game_state = X_WINS, moves_count = 5,
      winner = Some ''X'', winning_pattern = Some (0, 1, 2)\<rparr>) \<and>
   ((\<exists>k<length WIN_PATTERNS.
        is_line [''X'', ''X'', ''X'', '' '', ''O'', '' '', '' '', ''O'', '' ''] (WIN_PATTERNS ! k) \<and>
        (\<forall>j<k. \<not> is_line [''X'', ''X'', ''X'', '' '', ''O'', '' '', '' '', ''O'', '' '']
                     (WIN_PATTERNS ! j)) \<and>
        Some (0, 1, 2) = Some (WIN_PATTERNS ! k))
    \<or> (\<forall>p \<in> set WIN_PATTERNS.
          \<not> is_line [''X'', ''X'', ''X'', '' '', ''O'', '' '', '' '', ''O'', '' ''] p))"
proof -
  let ?s = "\<lparr>board = [''X'', ''X'', '' '', '' '', ''O'', '' '', '' '', ''O'', '' ''],
      current_player = ''X'', game_state = ONGOING, moves_count = 4,
      winner = None, winning_pattern = None\<rparr>"
  let ?s' = "\<lparr>board = [''X'', ''X'', ''X'', '' '', ''O'', '' '', '' '', ''O'', '' ''],
      current_player = ''X'', game_state = X_WINS, moves_count = 5,
      winner = Some ''X'', winning_pattern = Some (0, 1, 2)\<rparr>"
  have wf: "well_formed ?s" by (simp add: well_formed_def)
  have mv: "make_move ?s 2 = Inr (True, ?s')" by code_simp
  from outcome_recomputation wf mv
  have "(\<exists>k<length WIN_PATTERNS.
            is_line (board ?s') (WIN_PATTERNS ! k) \<and>
            (\<forall>j<k. \<not> is_line (board ?s') (WIN_PATTERNS ! j)) \<and>
            winning_pattern ?s' = Some (WIN_PATTERNS ! k) \<and>
            winner ?s' = Some (board ?s' ! fst (WIN_PATTERNS ! k)) \<and>
            (winner ?s' = Some ''X'' \<and> game_state ?s' = X_WINS \<or>
             winner ?s' = Some ''O'' \<and> game_state ?s' = O_WINS))
        \<or> ((\<forall>p \<in> set WIN_PATTERNS. \<not> is_line (board ?s') p) \<and>
            game_state ?s' = (if moves_count ?s' = 9 then DRAW else ONGOING))"
    by blast
  then have "(\<exists>k<length WIN_PATTERNS.
        is_line [''X'', ''X'', ''X'', '' '', ''O'', '' '', '' '', ''O'', '' ''] (WIN_PATTERNS ! k) \<and>
        (\<forall>j<k. \<not> is_line [''X'', ''X'', ''X'', '' '', ''O'', '' '', '' '', ''O'', '' '']
                     (WIN_PATTERNS ! j)) \<and>
        Some (0, 1, 2) = Some (WIN_PATTERNS ! k))
    \<or> (\<forall>p \<in> set WIN_PATTERNS.
          \<not> is_line [''X'', ''X'', ''X'', '' '', ''O'', '' '', '' '', ''O'', '' ''] p)"
    by simp blast
  with wf mv show ?thesis by blast
qed

text \<open>
  C4. In every object reachable from a new game by \<open>make_move\<close> calls (with any integer
  argument) and \<open>reset\<close>, the move count is 9 minus the number of blank cells, which is the
  number of cells that are not blank.
\<close>

theorem moves_count_reachable:
  assumes "reachable s"
  shows "moves_count s = 9 - int (count_list (board s) '' '') \<and>
         moves_count s = int (length (filter (\<lambda>c. c \<noteq> '' '') (board s)))"
proof -
  from reachable_count_invariant[OF assms]
  have "length (board s) = 9"
    and "moves_count s = int (length (filter (\<lambda>c. c \<noteq> '' '') (board s)))"
    by (simp_all add: count_invariant_def)
  with filter_count_blank[of "board s"] show ?thesis by simp
qed

theorem moves_count_reachable_witness:
  "reachable
     \<lparr>board = [''X'', '' '', '' '', '' '', ''O'', '' '', '' '', '' '', '' ''],
      current_player = ''X'', game_state = ONGOING, moves_count = 2,
      winner = None, winning_pattern = None\<rparr> \<and>
   (2::int) = 9 - int (count_list [''X'', '' '', '' '', '' '', ''O'', '' '', '' '', '' '', '' ''] '' '') \<and>
   (2::int) = int (length (filter (\<lambda>c. c \<noteq> '' '')
                     [''X'', '' '', '' '', '' '', ''O'', '' '', '' '', '' '', '' '']))"
proof -
  let ?s1 = "\<lparr>board = [''X'', '' '', '' '', '' '', '' '', '' '', '' '', '' '', '' ''],
      current_player = ''O'', game_state = ONGOING, moves_count = 1,
      winner = None, winning_pattern = None\<rparr>"
  let ?s2 = "\<lparr>board = [''X'', '' '', '' '', '' '', ''O'', '' '', '' '', '' '', '' ''],
      current_player = ''X'', game_state = ONGOING, moves_count = 2,
      winner = None, winning_pattern = None\<rparr>"
  have m1: "make_move init 0 = Inr (True, ?s1)" by code_simp
  have m2: "make_move ?s1 4 = Inr (True, ?s2)" by code_simp
  have r: "reachable ?s2"
    by (rule reachable_move[OF reachable_move[OF reachable_init m1] m2])
  from moves_count_reachable[OF r] r show ?thesis by simp
qed


section \<open>Properties of the search\<close>

lemma evaluate_loop_find:
  "\<forall>p \<in> set ps. pattern_in (length b) p \<Longrightarrow>
     evaluate_loop ai b ps =
       Inr (case find (is_line b) ps of
              Some p \<Rightarrow> if b ! fst p = symbol ai then 10 else - 10
            | None \<Rightarrow> 0)"
  by (induction ps) (auto simp: line_at_in)

lemma evaluate_board_find:
  "length b = 9 \<Longrightarrow>
     evaluate_board ai b =
       Inr (case find (is_line b) WIN_PATTERNS of
              Some p \<Rightarrow> if b ! fst p = symbol ai then 10 else - 10
            | None \<Rightarrow> 0)"
  unfolding evaluate_board_def
  by (rule evaluate_loop_find) (simp add: WIN_PATTERNS_in)

text \<open>
  \<open>other_player ai player\<close> is the player the search passes to the next level.
  \<open>move_score ai b player m i\<close> is the score the search returns for the board \<open>b\<close> with
  \<open>player\<close> at cell \<open>i\<close>, searched in mode \<open>m\<close>: the \<open>current_score\<close> of the loop at \<open>i\<close>.
\<close>

definition other_player :: "SmartAI \<Rightarrow> string \<Rightarrow> string" where
  "other_player ai player = (if player = symbol ai then opponent_symbol ai else symbol ai)"

definition move_score :: "SmartAI \<Rightarrow> string list \<Rightarrow> string \<Rightarrow> bool \<Rightarrow> nat \<Rightarrow> score" where
  "move_score ai b player m i =
     (case minimax ai (b[i := player]) (other_player ai player) m of
        Inl e \<Rightarrow> NegInf
      | Inr ((s, _), _) \<Rightarrow> s)"

lemma search_returns:
  "length b = 9 \<Longrightarrow> \<exists>v mv. minimax ai b player m = Inr ((Fin v, mv), b)"
  "length b1 = 9 \<Longrightarrow>
     \<exists>s mv. max_loop ai b1 player1 i1 bs1 bm1 = Inr ((s, mv), b1) \<and>
       (s = bs1 \<or> (\<exists>v. s = Fin v)) \<and>
       ((\<exists>j. i1 \<le> j \<and> j < 9 \<and> b1 ! j = '' '') \<longrightarrow> s \<noteq> NegInf)"
  "length b2 = 9 \<Longrightarrow>
     \<exists>s mv. min_loop ai b2 player2 i2 bs2 bm2 = Inr ((s, mv), b2) \<and>
       (s = bs2 \<or> (\<exists>v. s = Fin v)) \<and>
       ((\<exists>j. i2 \<le> j \<and> j < 9 \<and> b2 ! j = '' '') \<longrightarrow> s \<noteq> PosInf)"
proof (induction ai b player m and ai b1 player1 i1 bs1 bm1 and ai b2 player2 i2 bs2 bm2
       rule: minimax_max_loop_min_loop.induct)
  case (1 ai b player is_maximizing)
  obtain sc where sc: "evaluate_board ai b = Inr sc"
    using evaluate_board_find[OF "1.prems"] by blast
  show ?case
  proof (cases "sc \<noteq> 0 \<or> '' '' \<notin> set b")
    case True
    then show ?thesis using sc by (simp add: minimax.simps)
  next
    case False
    then obtain j where j: "j < 9" "b ! j = '' ''"
      using "1.prems" by (auto simp: in_set_conv_nth)
    show ?thesis
    proof (cases is_maximizing)
      case True
      from "1.IH"(1)[OF sc False True "1.prems"] j
      show ?thesis using sc False True by (auto simp: minimax.simps)
    next
      case nm: False
      from "1.IH"(2)[OF sc False nm "1.prems"] j
      show ?thesis using sc False nm by (auto simp: minimax.simps)
    qed
  qed
next
  case (2 ai b player i best_score best_move)
  note len = "2.prems"
  show ?case
  proof (cases "9 \<le> i")
    case True
    then show ?thesis by (auto simp: max_loop.simps[of ai b player i])
  next
    case False
    then have c: "getitem b i = Inr (b ! i)" using len by (simp add: getitem_def)
    show ?thesis
    proof (cases "b ! i = '' ''")
      case blank: True
      let ?p = "if player = symbol ai then opponent_symbol ai else symbol ai"
      have "length (b[i := player]) = 9" using len by simp
      from "2.IH"(1)[OF False c blank this] obtain v mv where
        inner: "minimax ai (b[i := player]) ?p False = Inr ((Fin v, mv), b[i := player])"
        by blast
      have undo: "setitem (b[i := player]) i '' '' = Inr b"
        using False len blank by (simp add: setitem_def list_update_self)
      show ?thesis
      proof (cases "best_score < Fin v")
        case True
        from "2.IH"(2)[OF False c blank inner refl refl undo True len]
        show ?thesis
          using False c blank inner undo True
          by (auto simp: max_loop.simps[of ai b player i])
      next
        case nb: False
        then have "best_score \<noteq> NegInf" by (auto simp: less_score_def)
        with "2.IH"(3)[OF False c blank inner refl refl undo nb len]
        show ?thesis
          using False c blank inner undo nb
          by (auto simp: max_loop.simps[of ai b player i])
      qed
    next
      case nonblank: False
      have "\<And>j. i \<le> j \<Longrightarrow> b ! j = '' '' \<Longrightarrow> i + 1 \<le> j"
        using nonblank by (metis Suc_eq_plus1 Suc_leI le_neq_implies_less)
      with "2.IH"(4)[OF False c nonblank len]
      show ?thesis
        using False c nonblank
        by (auto simp: max_loop.simps[of ai b player i])
    qed
  qed
next
  case (3 ai b player i best_score best_move)
  note len = "3.prems"
  show ?case
  proof (cases "9 \<le> i")
    case True
    then show ?thesis by (auto simp: min_loop.simps[of ai b player i])
  next
    case False
    then have c: "getitem b i = Inr (b ! i)" using len by (simp add: getitem_def)
    show ?thesis
    proof (cases "b ! i = '' ''")
      case blank: True
      let ?p = "if player = symbol ai then opponent_symbol ai else symbol ai"
      have "length (b[i := player]) = 9" using len by simp
      from "3.IH"(1)[OF False c blank this] obtain v mv where
        inner: "minimax ai (b[i := player]) ?p True = Inr ((Fin v, mv), b[i := player])"
        by blast
      have undo: "setitem (b[i := player]) i '' '' = Inr b"
        using False len blank by (simp add: setitem_def list_update_self)
      show ?thesis
      proof (cases "Fin v < best_score")
        case True
        from "3.IH"(2)[OF False c blank inner refl refl undo True len]
        show ?thesis
          using False c blank inner undo True
          by (auto simp: min_loop.simps[of ai b player i])
      next
        case nb: False
        then have "best_score \<noteq> PosInf" by (auto simp: less_score_def)
        with "3.IH"(3)[OF False c blank inner refl refl undo nb len]
        show ?thesis
          using False c blank inner undo nb
          by (auto simp: min_loop.simps[of ai b player i])
      qed
    next
      case nonblank: False
      have "\<And>j. i \<le> j \<Longrightarrow> b ! j = '' '' \<Longrightarrow> i + 1 \<le> j"
        using nonblank by (metis Suc_eq_plus1 Suc_leI le_neq_implies_less)
      with "3.IH"(4)[OF False c nonblank len]
      show ?thesis
        using False c nonblank
        by (auto simp: min_loop.simps[of ai b player i])
    qed
  qed
qed

lemma move_score_child:
  assumes "length b = 9"
  shows "\<exists>v mv. minimax ai (b[i := player])
                   (if player = symbol ai then opponent_symbol ai else symbol ai) m =
                 Inr ((Fin v, mv), b[i := player]) \<and>
               move_score ai b player m i = Fin v"
proof -
  have "length (b[i := player]) = 9" using assms by simp
  from search_returns(1)[OF this, of ai "other_player ai player" m]
  show ?thesis by (auto simp: move_score_def other_player_def)
qed

lemma max_loop_step:
  assumes len: "length b = 9" and i: "i < 9"
  shows "max_loop ai b player i bs bm =
           (if b ! i = '' '' then
              (if bs < move_score ai b player False i
               then max_loop ai b player (i + 1) (move_score ai b player False i) (Some i)
               else max_loop ai b player (i + 1) bs bm)
            else max_loop ai b player (i + 1) bs bm)"
proof -
  have c: "getitem b i = Inr (b ! i)" using len i by (simp add: getitem_def)
  show ?thesis
  proof (cases "b ! i = '' ''")
    case True
    from move_score_child[OF len, of ai i player False] obtain v mv where
      inner: "minimax ai (b[i := player])
                (if player = symbol ai then opponent_symbol ai else symbol ai) False =
              Inr ((Fin v, mv), b[i := player])"
      and ms: "move_score ai b player False i = Fin v"
      by blast
    have undo: "setitem (b[i := player]) i '' '' = Inr b"
      using i len True by (simp add: setitem_def list_update_self)
    show ?thesis
      using i c True inner ms undo by (simp add: max_loop.simps[of ai b player i])
  next
    case False
    then show ?thesis using i c by (simp add: max_loop.simps[of ai b player i])
  qed
qed

lemma min_loop_step:
  assumes len: "length b = 9" and i: "i < 9"
  shows "min_loop ai b player i bs bm =
           (if b ! i = '' '' then
              (if move_score ai b player True i < bs
               then min_loop ai b player (i + 1) (move_score ai b player True i) (Some i)
               else min_loop ai b player (i + 1) bs bm)
            else min_loop ai b player (i + 1) bs bm)"
proof -
  have c: "getitem b i = Inr (b ! i)" using len i by (simp add: getitem_def)
  show ?thesis
  proof (cases "b ! i = '' ''")
    case True
    from move_score_child[OF len, of ai i player True] obtain v mv where
      inner: "minimax ai (b[i := player])
                (if player = symbol ai then opponent_symbol ai else symbol ai) True =
              Inr ((Fin v, mv), b[i := player])"
      and ms: "move_score ai b player True i = Fin v"
      by blast
    have undo: "setitem (b[i := player]) i '' '' = Inr b"
      using i len True by (simp add: setitem_def list_update_self)
    show ?thesis
      using i c True inner ms undo by (simp add: min_loop.simps[of ai b player i])
  next
    case False
    then show ?thesis using i c by (simp add: min_loop.simps[of ai b player i])
  qed
qed


text \<open>
  What a scan of the cells \<open>i..8\<close> that starts with \<open>(bs, bm)\<close> and replaces the pair at
  every blank cell with a strictly better score ends with: either nothing was better, or
  the result is the first cell among the best ones.
\<close>

definition scan_max :: "(nat \<Rightarrow> score) \<Rightarrow> string list \<Rightarrow> nat \<Rightarrow> score \<Rightarrow> nat option \<Rightarrow> score \<Rightarrow> nat option \<Rightarrow> bool" where
  "scan_max ms b i bs bm s mv =
     ((s = bs \<and> mv = bm \<and> (\<forall>j. i \<le> j \<and> j < 9 \<and> b ! j = '' '' \<longrightarrow> \<not> bs < ms j)) \<or>
      (\<exists>k. i \<le> k \<and> k < 9 \<and> b ! k = '' '' \<and> mv = Some k \<and> s = ms k \<and> bs < s \<and>
           (\<forall>j. i \<le> j \<and> j < 9 \<and> b ! j = '' '' \<longrightarrow> ms j \<le> s) \<and>
           (\<forall>j. i \<le> j \<and> j < k \<and> b ! j = '' '' \<longrightarrow> ms j < s)))"

definition scan_min :: "(nat \<Rightarrow> score) \<Rightarrow> string list \<Rightarrow> nat \<Rightarrow> score \<Rightarrow> nat option \<Rightarrow> score \<Rightarrow> nat option \<Rightarrow> bool" where
  "scan_min ms b i bs bm s mv =
     ((s = bs \<and> mv = bm \<and> (\<forall>j. i \<le> j \<and> j < 9 \<and> b ! j = '' '' \<longrightarrow> \<not> ms j < bs)) \<or>
      (\<exists>k. i \<le> k \<and> k < 9 \<and> b ! k = '' '' \<and> mv = Some k \<and> s = ms k \<and> s < bs \<and>
           (\<forall>j. i \<le> j \<and> j < 9 \<and> b ! j = '' '' \<longrightarrow> s \<le> ms j) \<and>
           (\<forall>j. i \<le> j \<and> j < k \<and> b ! j = '' '' \<longrightarrow> s < ms j)))"

lemma from_split: "(i::nat) \<le> j \<longleftrightarrow> j = i \<or> Suc i \<le> j"
  by auto

lemma scan_max_end: "9 \<le> i \<Longrightarrow> scan_max ms b i bs bm bs bm"
  by (auto simp: scan_max_def)

lemma scan_max_skip:
  "b ! i \<noteq> '' '' \<Longrightarrow> scan_max ms b (Suc i) bs bm s mv \<Longrightarrow> scan_max ms b i bs bm s mv"
  unfolding scan_max_def
  apply (erule disjE)
   apply (rule disjI1)
   apply (metis from_split)
  apply (rule disjI2)
  apply (erule exE)
  subgoal for k
    apply (rule exI[of _ k])
    apply (metis from_split Suc_leD)
    done
  done

lemma scan_max_keep:
  "\<not> bs < ms i \<Longrightarrow> scan_max ms b (Suc i) bs bm s mv \<Longrightarrow> scan_max ms b i bs bm s mv"
  unfolding scan_max_def
  apply (erule disjE)
   apply (rule disjI1)
   apply (metis from_split)
  apply (rule disjI2)
  apply (erule exE)
  subgoal for k
    apply (rule exI[of _ k])
    apply (metis from_split Suc_leD not_less le_less_trans less_imp_le)
    done
  done

lemma scan_max_take:
  "i < 9 \<Longrightarrow> b ! i = '' '' \<Longrightarrow> bs < ms i \<Longrightarrow>
     scan_max ms b (Suc i) (ms i) (Some i) s mv \<Longrightarrow> scan_max ms b i bs bm s mv"
  unfolding scan_max_def
  apply (rule disjI2)
  apply (erule disjE)
   apply (rule exI[of _ i])
   apply (metis from_split not_less order_refl less_irrefl leD Suc_eq_plus1 not_less_eq_eq)
  apply (erule exE)
  subgoal for k
    apply (rule exI[of _ k])
    apply (metis from_split Suc_leD less_trans less_imp_le)
    done
  done

lemma scan_min_end: "9 \<le> i \<Longrightarrow> scan_min ms b i bs bm bs bm"
  by (auto simp: scan_min_def)

lemma scan_min_skip:
  "b ! i \<noteq> '' '' \<Longrightarrow> scan_min ms b (Suc i) bs bm s mv \<Longrightarrow> scan_min ms b i bs bm s mv"
  unfolding scan_min_def
  apply (erule disjE)
   apply (rule disjI1)
   apply (metis from_split)
  apply (rule disjI2)
  apply (erule exE)
  subgoal for k
    apply (rule exI[of _ k])
    apply (metis from_split Suc_leD)
    done
  done

lemma scan_min_keep:
  "\<not> ms i < bs \<Longrightarrow> scan_min ms b (Suc i) bs bm s mv \<Longrightarrow> scan_min ms b i bs bm s mv"
  unfolding scan_min_def
  apply (erule disjE)
   apply (rule disjI1)
   apply (metis from_split)
  apply (rule disjI2)
  apply (erule exE)
  subgoal for k
    apply (rule exI[of _ k])
    apply (metis from_split Suc_leD not_less less_le_trans less_imp_le)
    done
  done

lemma scan_min_take:
  "i < 9 \<Longrightarrow> b ! i = '' '' \<Longrightarrow> ms i < bs \<Longrightarrow>
     scan_min ms b (Suc i) (ms i) (Some i) s mv \<Longrightarrow> scan_min ms b i bs bm s mv"
  unfolding scan_min_def
  apply (rule disjI2)
  apply (erule disjE)
   apply (rule exI[of _ i])
   apply (metis from_split not_less order_refl less_irrefl leD Suc_eq_plus1 not_less_eq_eq)
  apply (erule exE)
  subgoal for k
    apply (rule exI[of _ k])
    apply (metis from_split Suc_leD less_trans less_imp_le)
    done
  done

lemma max_loop_scan:
  assumes len: "length b = 9"
  shows "i \<le> 9 \<Longrightarrow> 9 - i = n \<Longrightarrow>
     \<exists>s mv. max_loop ai b player i bs bm = Inr ((s, mv), b) \<and>
            scan_max (move_score ai b player False) b i bs bm s mv"
proof (induction n arbitrary: i bs bm)
  case 0
  then have "9 \<le> i" by simp
  then show ?case by (simp add: max_loop.simps[of ai b player i] scan_max_end)
next
  case (Suc n)
  then have i: "i < 9" and n: "9 - (i + 1) = n" and i1: "i + 1 \<le> 9" by auto
  note step = max_loop_step[OF len i, of ai player bs bm]
  show ?case
  proof (cases "b ! i = '' ''")
    case blank: True
    show ?thesis
    proof (cases "bs < move_score ai b player False i")
      case True
      with Suc.IH[OF i1 n, of "move_score ai b player False i" "Some i"] step blank i
      show ?thesis by (auto intro: scan_max_take)
    next
      case False
      with Suc.IH[OF i1 n, of bs bm] step blank
      show ?thesis by (auto intro: scan_max_keep)
    qed
  next
    case False
    with Suc.IH[OF i1 n, of bs bm] step
    show ?thesis by (auto intro: scan_max_skip)
  qed
qed

lemma min_loop_scan:
  assumes len: "length b = 9"
  shows "i \<le> 9 \<Longrightarrow> 9 - i = n \<Longrightarrow>
     \<exists>s mv. min_loop ai b player i bs bm = Inr ((s, mv), b) \<and>
            scan_min (move_score ai b player True) b i bs bm s mv"
proof (induction n arbitrary: i bs bm)
  case 0
  then have "9 \<le> i" by simp
  then show ?case by (simp add: min_loop.simps[of ai b player i] scan_min_end)
next
  case (Suc n)
  then have i: "i < 9" and n: "9 - (i + 1) = n" and i1: "i + 1 \<le> 9" by auto
  note step = min_loop_step[OF len i, of ai player bs bm]
  show ?case
  proof (cases "b ! i = '' ''")
    case blank: True
    show ?thesis
    proof (cases "move_score ai b player True i < bs")
      case True
      with Suc.IH[OF i1 n, of "move_score ai b player True i" "Some i"] step blank i
      show ?thesis by (auto intro: scan_min_take)
    next
      case False
      with Suc.IH[OF i1 n, of bs bm] step blank
      show ?thesis by (auto intro: scan_min_keep)
    qed
  next
    case False
    with Suc.IH[OF i1 n, of bs bm] step
    show ?thesis by (auto intro: scan_min_skip)
  qed
qed

lemma move_score_fin: "length b = 9 \<Longrightarrow> \<exists>v. move_score ai b player m i = Fin v"
  using move_score_child[of b ai i player m] by blast

text \<open>The search on a board that is not terminal.\<close>

lemma minimax_max_choice:
  assumes len: "length b = 9" and ev: "evaluate_board ai b = Inr 0" and bl: "'' '' \<in> set b"
  shows "\<exists>k. k < 9 \<and> b ! k = '' '' \<and>
           minimax ai b player True = Inr ((move_score ai b player False k, Some k), b) \<and>
           (\<forall>j. j < 9 \<and> b ! j = '' '' \<longrightarrow>
                 move_score ai b player False j \<le> move_score ai b player False k) \<and>
           (\<forall>j. j < k \<and> b ! j = '' '' \<longrightarrow>
                 move_score ai b player False j < move_score ai b player False k)"
proof -
  let ?ms = "move_score ai b player False"
  have eq: "minimax ai b player True = max_loop ai b player 0 NegInf None"
    using ev bl by (simp add: minimax.simps)
  from max_loop_scan[OF len, of 0 9 ai player NegInf None] obtain s mv where
    r: "max_loop ai b player 0 NegInf None = Inr ((s, mv), b)" and
    sc: "scan_max ?ms b 0 NegInf None s mv"
    by auto
  from bl len obtain j where j: "j < 9" "b ! j = '' ''" by (auto simp: in_set_conv_nth)
  from move_score_fin[OF len, of ai player False j] have "NegInf < ?ms j"
    by (auto simp: less_score_def)
  with sc j have "\<exists>k. k < 9 \<and> b ! k = '' '' \<and> mv = Some k \<and> s = ?ms k \<and>
           (\<forall>j. j < 9 \<and> b ! j = '' '' \<longrightarrow> ?ms j \<le> s) \<and>
           (\<forall>j. j < k \<and> b ! j = '' '' \<longrightarrow> ?ms j < s)"
    unfolding scan_max_def by auto
  with eq r show ?thesis by auto
qed

lemma minimax_min_choice:
  assumes len: "length b = 9" and ev: "evaluate_board ai b = Inr 0" and bl: "'' '' \<in> set b"
  shows "\<exists>k. k < 9 \<and> b ! k = '' '' \<and>
           minimax ai b player False = Inr ((move_score ai b player True k, Some k), b) \<and>
           (\<forall>j. j < 9 \<and> b ! j = '' '' \<longrightarrow>
                 move_score ai b player True k \<le> move_score ai b player True j) \<and>
           (\<forall>j. j < k \<and> b ! j = '' '' \<longrightarrow>
                 move_score ai b player True k < move_score ai b player True j)"
proof -
  let ?ms = "move_score ai b player True"
  have eq: "minimax ai b player False = min_loop ai b player 0 PosInf None"
    using ev bl by (simp add: minimax.simps)
  from min_loop_scan[OF len, of 0 9 ai player PosInf None] obtain s mv where
    r: "min_loop ai b player 0 PosInf None = Inr ((s, mv), b)" and
    sc: "scan_min ?ms b 0 PosInf None s mv"
    by auto
  from bl len obtain j where j: "j < 9" "b ! j = '' ''" by (auto simp: in_set_conv_nth)
  from move_score_fin[OF len, of ai player True j] have "?ms j < PosInf"
    by (auto simp: less_score_def)
  with sc j have "\<exists>k. k < 9 \<and> b ! k = '' '' \<and> mv = Some k \<and> s = ?ms k \<and>
           (\<forall>j. j < 9 \<and> b ! j = '' '' \<longrightarrow> s \<le> ?ms j) \<and>
           (\<forall>j. j < k \<and> b ! j = '' '' \<longrightarrow> s < ?ms j)"
    unfolding scan_min_def by auto
  with eq r show ?thesis by auto
qed

lemma minimax_terminal:
  assumes "evaluate_board ai b = Inr v" and "v \<noteq> 0 \<or> '' '' \<notin> set b"
  shows "minimax ai b player m = Inr ((Fin v, None), b)"
  using assms by (simp add: minimax.simps)

subsection \<open>Moves of the automated players\<close>

lemma available_from_filter:
  "\<forall>i \<in> set is. i < length b \<Longrightarrow>
     available_from b is = Inr (map int (filter (\<lambda>i. b ! i = '' '') is))"
  by (induction "is") (auto simp: getitem_def)

lemma get_available_moves_filter:
  "length (board game) = 9 \<Longrightarrow>
     get_available_moves game = Inr (map int (filter (\<lambda>i. board game ! i = '' '') [0..<9]))"
  unfolding get_available_moves_def by (rule available_from_filter) simp

lemma random_choice_in: "random_choice r xs = Inr x \<Longrightarrow> x \<in> set xs"
  by (auto simp: random_choice_def split: if_splits)

lemma random_choice_some: "xs \<noteq> [] \<Longrightarrow> \<exists>x. random_choice r xs = Inr x"
  by (simp add: random_choice_def)

lemma getitem_in: "getitem xs i = Inr x \<Longrightarrow> x \<in> set xs"
  by (auto simp: getitem_def split: if_splits)

lemma available_legal:
  assumes "length (board game) = 9" and "game_state game = ONGOING"
    and "position \<in> set (map int (filter (\<lambda>i. board game ! i = '' '') [0..<9]))"
  shows "0 \<le> position \<and> position \<le> 8 \<and> board game ! nat position = '' '' \<and>
         is_valid_move game position = Inr True"
  using assms by (auto simp: is_valid_move_def getitem_def)

lemma available_nonempty:
  assumes "length b = 9" and "'' '' \<in> set b"
  shows "filter (\<lambda>i. b ! i = '' '') [0..<9] \<noteq> []"
proof -
  from assms obtain j where "j < 9" "b ! j = '' ''" by (auto simp: in_set_conv_nth)
  then have "j \<in> set (filter (\<lambda>i. b ! i = '' '') [0..<9])" by simp
  then show ?thesis by (metis empty_iff list.set(1))
qed

text \<open>The move the search returns is \<open>None\<close> or a blank cell.\<close>

lemma minimax_move_blank:
  assumes len: "length b = 9"
  shows "\<exists>s mv. minimax ai b player True = Inr ((s, mv), b) \<and>
           (case mv of None \<Rightarrow> True | Some k \<Rightarrow> k < 9 \<and> b ! k = '' '')"
proof -
  obtain v where v: "evaluate_board ai b = Inr v"
    using evaluate_board_find[OF len] by blast
  show ?thesis
  proof (cases "v \<noteq> 0 \<or> '' '' \<notin> set b")
    case True
    from minimax_terminal[OF v True] show ?thesis by simp
  next
    case False
    with v have "evaluate_board ai b = Inr 0" "'' '' \<in> set b" by auto
    from minimax_max_choice[OF len this, of player] show ?thesis by auto
  qed
qed

lemma automated_moves_legal:
  assumes len: "length (board game) = 9" and on: "game_state game = ONGOING"
  shows "(RandomAI_get_move r game = Inr position \<longrightarrow>
            0 \<le> position \<and> position \<le> 8 \<and> board game ! nat position = '' '' \<and>
            is_valid_move game position = Inr True) \<and>
         (SmartAI_get_move ai low r game = Inr position \<longrightarrow>
            0 \<le> position \<and> position \<le> 8 \<and> board game ! nat position = '' '' \<and>
            is_valid_move game position = Inr True) \<and>
         ('' '' \<in> set (board game) \<longrightarrow>
            (\<exists>p. RandomAI_get_move r game = Inr p) \<and>
            (\<exists>p. SmartAI_get_move ai low r game = Inr p))"
proof (intro conjI impI)
  let ?av = "map int (filter (\<lambda>i. board game ! i = '' '') [0..<9])"
  note av = get_available_moves_filter[OF len]
  {
    assume "RandomAI_get_move r game = Inr position"
    then have "position \<in> set ?av"
      using av random_choice_in[of r ?av position] by (simp add: RandomAI_get_move_def)
    from available_legal[OF len on this]
    show "0 \<le> position" "position \<le> 8" "board game ! nat position = '' ''"
      "is_valid_move game position = Inr True" by simp_all
  }
  from minimax_move_blank[OF len, of ai "symbol ai"] obtain s mv where
    mm: "minimax ai (board game) (symbol ai) True = Inr ((s, mv), board game)" and
    mv: "case mv of None \<Rightarrow> True | Some k \<Rightarrow> k < 9 \<and> board game ! k = '' ''"
    by blast
  {
    assume g: "SmartAI_get_move ai low r game = Inr position"
    have "position \<in> set ?av"
    proof (cases "difficulty ai = ''easy'' \<and> low")
      case True
      with g av random_choice_in[of r ?av position] show ?thesis
        by (simp add: SmartAI_get_move_def)
    next
      case False
      show ?thesis
      proof (cases mv)
        case None
        with g False mm av getitem_in[of ?av 0 position] show ?thesis
          by (simp add: SmartAI_get_move_def get_board_copy_def)
      next
        case (Some k)
        with g False mm mv show ?thesis
          by (auto simp: SmartAI_get_move_def get_board_copy_def)
      qed
    qed
    from available_legal[OF len on this]
    show "0 \<le> position" "position \<le> 8" "board game ! nat position = '' ''"
      "is_valid_move game position = Inr True" by simp_all
  }
  {
    assume bl: "'' '' \<in> set (board game)"
    from available_nonempty[OF len bl] have ne: "?av \<noteq> []" by simp
    from random_choice_some[OF ne, of r] av
    show "\<exists>p. RandomAI_get_move r game = Inr p" by (simp add: RandomAI_get_move_def)
    show "\<exists>p. SmartAI_get_move ai low r game = Inr p"
    proof (cases "difficulty ai = ''easy'' \<and> low")
      case True
      with random_choice_some[OF ne, of r] av show ?thesis
        by (simp add: SmartAI_get_move_def)
    next
      case False
      from ne obtain x xs where "?av = x # xs" by (cases ?av) auto
      then have "getitem ?av 0 = Inr x" by (simp add: getitem_def)
      with False mm av show ?thesis
        by (cases mv) (auto simp: SmartAI_get_move_def get_board_copy_def)
    qed
  }
qed

text \<open>
  C6. For every object with nine cells whose game state is \<open>ONGOING\<close>, every position
  that \<open>RandomAI.get_move\<close> or \<open>SmartAI.get_move\<close> returns, for any outcome of the random
  draws, is in \<open>0..8\<close>, names a blank cell and passes \<open>is_valid_move\<close>; and when the board
  has a blank cell both methods do return a position.
\<close>

theorem ai_moves_legal:
  assumes "length (board game) = 9" and "game_state game = ONGOING"
  shows "(RandomAI_get_move r game = Inr position \<longrightarrow>
            0 \<le> position \<and> position \<le> 8 \<and> board game ! nat position = '' '' \<and>
            is_valid_move game position = Inr True) \<and>
         (SmartAI_get_move ai low r game = Inr position \<longrightarrow>
            0 \<le> position \<and> position \<le> 8 \<and> board game ! nat position = '' '' \<and>
            is_valid_move game position = Inr True) \<and>
         ('' '' \<in> set (board game) \<longrightarrow>
            (\<exists>p. RandomAI_get_move r game = Inr p) \<and>
            (\<exists>p. SmartAI_get_move ai low r game = Inr p))"
  using assms by (rule automated_moves_legal)

theorem ai_moves_legal_witness:
  "length (board \<lparr>board = [''X'', ''O'', ''X'', ''O'', ''O'', ''X'', '' '', '' '', '' ''],
      current_player = ''X'', game_state = ONGOING, moves_count = 6,
      winner = None, winning_pattern = None\<rparr>) = 9 \<and>
   RandomAI_get_move 5
     \<lparr>board = [''X'', ''O'', ''X'', ''O'', ''O'', ''X'', '' '', '' '', '' ''],
      current_player = ''X'', game_state = ONGOING, moves_count = 6,
      winner = None, winning_pattern = None\<rparr> = Inr 8 \<and>
   SmartAI_get_move \<lparr>symbol = ''X'', difficulty = ''hard''\<rparr> False 0
     \<lparr>board = [''X'', ''O'', ''X'', ''O'', ''O'', ''X'', '' '', '' '', '' ''],
      current_player = ''X'', game_state = ONGOING, moves_count = 6,
      winner = None, winning_pattern = None\<rparr> = Inr 8 \<and>
   SmartAI_get_move \<lparr>symbol = ''X'', difficulty = ''easy''\<rparr> True 4
     \<lparr>board = [''X'', ''O'', ''X'', ''O'', ''O'', ''X'', '' '', '' '', '' ''],
      current_player = ''X'', game_state = ONGOING, moves_count = 6,
      winner = None, winning_pattern = None\<rparr> = Inr 7 \<and>
   is_valid_move
     \<lparr>board = [''X'', ''O'', ''X'', ''O'', ''O'', ''X'', '' '', '' '', '' ''],
      current_player = ''X'', game_state = ONGOING, moves_count = 6,
      winner = None, winning_pattern = None\<rparr> 8 = Inr True \<and>
   is_valid_move
     \<lparr>board = [''X'', ''O'', ''X'', ''O'', ''O'', ''X'', '' '', '' '', '' ''],
      current_player = ''X'', game_state = ONGOING, moves_count = 6,
      winner = None, winning_pattern = None\<rparr> 7 = Inr True"
proof -
  let ?g = "\<lparr>board = [''X'', ''O'', ''X'', ''O'', ''O'', ''X'', '' '', '' '', '' ''],
      current_player = ''X'', game_state = ONGOING, moves_count = 6,
      winner = None, winning_pattern = None\<rparr>"
  have len: "length (board ?g) = 9" by simp
  have on: "game_state ?g = ONGOING" by simp
  have r: "RandomAI_get_move 5 ?g = Inr 8" by code_simp
  have s: "SmartAI_get_move \<lparr>symbol = ''X'', difficulty = ''hard''\<rparr> False 0 ?g = Inr 8"
    by code_simp
  have e: "SmartAI_get_move \<lparr>symbol = ''X'', difficulty = ''easy''\<rparr> True 4 ?g = Inr 7"
    by code_simp
  from ai_moves_legal[OF len on, where r = 5 and position = 8] r have v8: "is_valid_move ?g 8 = Inr True" by blast
  from ai_moves_legal[OF len on, where position = 7 and low = True and r = 4
      and ai = "\<lparr>symbol = ''X'', difficulty = ''easy''\<rparr>"] e
  have v7: "is_valid_move ?g 7 = Inr True" by blast
  from len r s e v8 v7 show ?thesis by blast
qed

subsection \<open>The search leaves its list as it was\<close>

lemma minimax_at_store:
  assumes "minimax_at ai h c player m = Inr (res, h')" and "c < length h"
  shows "h' = h"
proof -
  from assms(1) obtain b' where m: "minimax ai (h ! c) player m = Inr (res, b')"
    and h': "h' = h[c := b']"
    by (auto simp: minimax_at_def split: sum.splits)
  from minimax_board[OF m] h' show ?thesis by (simp add: list_update_self)
qed

text \<open>
  C7. \<open>SmartAI.get_move\<close> on a game whose board is the list object at address \<open>a\<close>: when
  it returns, that object and every other object of the store hold the cells they held
  before; at most one object was added, the private copy, and it holds the cells of the
  board again. The position returned is the one of the model without a store. Every call
  of the search, on any list, returns the list as it received it.
\<close>

theorem search_keeps_boards:
  assumes a: "a < length h" and g: "board game = h ! a"
    and mv: "SmartAI_get_move_at ai low r h a = Inr (position, h')"
  shows "h' ! a = h ! a \<and> take (length h) h' = h \<and>
         (h' = h \<or> h' = h @ [h ! a]) \<and>
         SmartAI_get_move ai low r game = Inr position \<and>
         (\<forall>b player m res b'. minimax ai b player m = Inr (res, b') \<longrightarrow> b' = b)"
proof -
  have frame: "\<forall>b player m res b'. minimax ai b player m = Inr (res, b') \<longrightarrow> b' = b"
    using minimax_board by blast
  show ?thesis
  proof (cases "difficulty ai = ''easy'' \<and> low")
    case True
    with mv g have "h' = h" "SmartAI_get_move ai low r game = Inr position"
      by (auto simp: SmartAI_get_move_at_def SmartAI_get_move_def get_available_moves_def
               split: sum.splits)
    with frame show ?thesis by simp
  next
    case False
    let ?h1 = "h @ [h ! a]"
    from mv False obtain s bm h2 where
      m: "minimax_at ai ?h1 (length h) (symbol ai) True = Inr ((s, bm), h2)"
      by (auto simp: SmartAI_get_move_at_def list_copy_def split: sum.splits)
    from minimax_at_store[OF m] have h2: "h2 = ?h1" by simp
    from m have mm: "minimax ai (h ! a) (symbol ai) True = Inr ((s, bm), h ! a)"
      using minimax_board[of ai "h ! a" "symbol ai" True]
      by (auto simp: minimax_at_def split: sum.splits)
    have h': "h' = ?h1"
      using mv False m h2
      by (auto simp: SmartAI_get_move_at_def list_copy_def split: sum.splits option.splits)
    have "SmartAI_get_move ai low r game = Inr position"
      using mv False m h2 mm g a
      by (auto simp: SmartAI_get_move_at_def SmartAI_get_move_def list_copy_def
               get_board_copy_def get_available_moves_def nth_append
               split: sum.splits option.splits)
    with h' a frame show ?thesis by (simp add: nth_append)
  qed
qed

theorem search_keeps_boards_witness:
  "(0::nat) < length [[''X'', ''O'', ''X'', ''O'', ''O'', ''X'', '' '', '' '', '' '']] \<and>
   SmartAI_get_move_at \<lparr>symbol = ''X'', difficulty = ''hard''\<rparr> False 0
     [[''X'', ''O'', ''X'', ''O'', ''O'', ''X'', '' '', '' '', '' '']] 0 =
   Inr (8, [[''X'', ''O'', ''X'', ''O'', ''O'', ''X'', '' '', '' '', '' ''],
            [''X'', ''O'', ''X'', ''O'', ''O'', ''X'', '' '', '' '', '' '']]) \<and>
   [[''X'', ''O'', ''X'', ''O'', ''O'', ''X'', '' '', '' '', '' ''],
    [''X'', ''O'', ''X'', ''O'', ''O'', ''X'', '' '', '' '', '' '']] ! 0 =
   [[''X'', ''O'', ''X'', ''O'', ''O'', ''X'', '' '', '' '', '' '']] ! 0 \<and>
   SmartAI_get_move \<lparr>symbol = ''X'', difficulty = ''hard''\<rparr> False 0
     \<lparr>board = [''X'', ''O'', ''X'', ''O'', ''O'', ''X'', '' '', '' '', '' ''],
      current_player = ''X'', game_state = ONGOING, moves_count = 6,
      winner = None, winning_pattern = None\<rparr> = Inr 8"
proof -
  let ?b = "[''X'', ''O'', ''X'', ''O'', ''O'', ''X'', '' '', '' '', '' '']"
  let ?g = "\<lparr>board = ?b, current_player = ''X'', game_state = ONGOING, moves_count = 6,
      winner = None, winning_pattern = None\<rparr>"
  let ?ai = "\<lparr>symbol = ''X'', difficulty = ''hard''\<rparr>"
  have a: "(0::nat) < length [?b]" by simp
  have g: "board ?g = [?b] ! 0" by simp
  have mv: "SmartAI_get_move_at ?ai False 0 [?b] 0 = Inr (8, [?b, ?b])" by code_simp
  from search_keeps_boards[OF a g mv]
  have "[?b, ?b] ! 0 = [?b] ! 0" and "SmartAI_get_move ?ai False 0 ?g = Inr 8"
    by blast+
  with a mv show ?thesis by blast
qed

subsection \<open>The choice among equal scores\<close>

text \<open>
  C5. On a nine-cell board that is not terminal (no line, a blank cell) the search
  returns, as maximiser, the score of a blank cell \<open>k\<close> that no blank cell beats and that
  every blank cell of lower index falls strictly short of; as minimiser, the same with the
  order reversed. So among the moves with the best score for the mover, the one of lowest
  index is returned: a later move with an equal score never replaces the chosen one. The
  list is returned unchanged. \<open>move_score ai b player m i\<close> is the score the search
  returns for the board with \<open>player\<close> at cell \<open>i\<close>.
\<close>

theorem minimax_lowest_best:
  assumes "length b = 9" and "evaluate_board ai b = Inr 0" and "'' '' \<in> set b"
  shows "(\<exists>k. k < 9 \<and> b ! k = '' '' \<and>
            minimax ai b player True = Inr ((move_score ai b player False k, Some k), b) \<and>
            (\<forall>j. j < 9 \<and> b ! j = '' '' \<longrightarrow>
                  move_score ai b player False j \<le> move_score ai b player False k) \<and>
            (\<forall>j. j < k \<and> b ! j = '' '' \<longrightarrow>
                  move_score ai b player False j < move_score ai b player False k)) \<and>
         (\<exists>k. k < 9 \<and> b ! k = '' '' \<and>
            minimax ai b player False = Inr ((move_score ai b player True k, Some k), b) \<and>
            (\<forall>j. j < 9 \<and> b ! j = '' '' \<longrightarrow>
                  move_score ai b player True k \<le> move_score ai b player True j) \<and>
            (\<forall>j. j < k \<and> b ! j = '' '' \<longrightarrow>
                  move_score ai b player True k < move_score ai b player True j))"
  using minimax_max_choice[OF assms, of player] minimax_min_choice[OF assms, of player]
  by (rule conjI)

theorem minimax_lowest_best_witness:
  "length [''X'', ''X'', '' '', ''X'', ''O'', ''O'', '' '', ''O'', '' ''] = 9 \<and>
   evaluate_board \<lparr>symbol = ''X'', difficulty = ''hard''\<rparr>
     [''X'', ''X'', '' '', ''X'', ''O'', ''O'', '' '', ''O'', '' ''] = Inr 0 \<and>
   '' '' \<in> set [''X'', ''X'', '' '', ''X'', ''O'', ''O'', '' '', ''O'', '' ''] \<and>
   move_score \<lparr>symbol = ''X'', difficulty = ''hard''\<rparr>
     [''X'', ''X'', '' '', ''X'', ''O'', ''O'', '' '', ''O'', '' ''] ''X'' False 2 = Fin 10 \<and>
   move_score \<lparr>symbol = ''X'', difficulty = ''hard''\<rparr>
     [''X'', ''X'', '' '', ''X'', ''O'', ''O'', '' '', ''O'', '' ''] ''X'' False 6 = Fin 10 \<and>
   minimax \<lparr>symbol = ''X'', difficulty = ''hard''\<rparr>
     [''X'', ''X'', '' '', ''X'', ''O'', ''O'', '' '', ''O'', '' ''] ''X'' True =
   Inr ((Fin 10, Some 2), [''X'', ''X'', '' '', ''X'', ''O'', ''O'', '' '', ''O'', '' ''])"
proof -
  let ?ai = "\<lparr>symbol = ''X'', difficulty = ''hard''\<rparr>"
  let ?b = "[''X'', ''X'', '' '', ''X'', ''O'', ''O'', '' '', ''O'', '' '']"
  let ?ms = "move_score ?ai ?b ''X'' False"
  have len: "length ?b = 9" by simp
  have ev: "evaluate_board ?ai ?b = Inr 0" by code_simp
  have bl: "'' '' \<in> set ?b" by simp
  have m2: "?ms 2 = Fin 10" by code_simp
  have m6: "?ms 6 = Fin 10" by code_simp
  have m8: "?ms 8 = Fin 10" by code_simp
  from minimax_lowest_best[OF len ev bl, of "''X''"] obtain k where
    k: "k < 9" "?b ! k = '' ''"
       "minimax ?ai ?b ''X'' True = Inr ((?ms k, Some k), ?b)"
       "\<forall>j. j < k \<and> ?b ! j = '' '' \<longrightarrow> ?ms j < ?ms k"
    by blast
  have blanks: "k = 2 \<or> k = 6 \<or> k = 8"
  proof -
    have "k \<in> {0, 1, 2, 3, 4, 5, 6, 7, 8}" using k(1) by auto
    with k(2) show ?thesis by auto
  qed
  have "k = 2"
  proof (rule ccontr)
    assume "k \<noteq> 2"
    with blanks have "2 < k" "?ms k = Fin 10" using m6 m8 by auto
    with k(4) have "?ms 2 < Fin 10" by (metis nth_Cons_0 nth_Cons_Suc numeral_2_eq_2)
    with m2 show False by simp
  qed
  with k(3) m2 have "minimax ?ai ?b ''X'' True = Inr ((Fin 10, Some 2), ?b)" by simp
  with len ev bl m2 m6 show ?thesis by blast
qed

subsection \<open>The first player does not lose\<close>

text \<open>
  \<open>search_score ai b player m\<close> is the score the search returns for \<open>b\<close>.
  \<open>line_value mark b\<close> is what \<open>_evaluate_board\<close> returns on a nine-cell board for a
  player with symbol \<open>mark\<close>.
\<close>

definition search_score :: "SmartAI \<Rightarrow> string list \<Rightarrow> string \<Rightarrow> bool \<Rightarrow> score" where
  "search_score ai b player m =
     (case minimax ai b player m of Inl e \<Rightarrow> NegInf | Inr ((s, _), _) \<Rightarrow> s)"

definition line_value :: "string \<Rightarrow> string list \<Rightarrow> int" where
  "line_value mark b =
     (case find (is_line b) WIN_PATTERNS of
        Some p \<Rightarrow> if b ! fst p = mark then 10 else - 10
      | None \<Rightarrow> 0)"

text \<open>
  A strategy check. \<open>safe n mark opp True b\<close> holds when, within \<open>n\<close> moves, the player
  \<open>mark\<close> to move on \<open>b\<close> has a move after which \<open>safe n mark opp False\<close> holds;
  \<open>safe n mark opp False b\<close> holds when every move of \<open>opp\<close> leads to a board on which
  \<open>safe n mark opp True\<close> holds; on a board with a line or without a blank cell it holds
  when the line is not the opponent's. \<open>safe_sound\<close> shows that the search score of a
  safe board is at least 0.
\<close>

primrec some_cell :: "(nat \<Rightarrow> bool) \<Rightarrow> nat list \<Rightarrow> bool" where
  "some_cell P [] = False"
| "some_cell P (i # rest) = (if P i then True else some_cell P rest)"

primrec every_cell :: "(nat \<Rightarrow> bool) \<Rightarrow> nat list \<Rightarrow> bool" where
  "every_cell P [] = True"
| "every_cell P (i # rest) = (if P i then every_cell P rest else False)"

fun safe :: "nat \<Rightarrow> string \<Rightarrow> string \<Rightarrow> bool \<Rightarrow> string list \<Rightarrow> bool" where
  "safe 0 mark opp mx b = False"
| "safe (Suc n) mark opp mx b =
     (if line_value mark b \<noteq> 0 \<or> '' '' \<notin> set b then 0 \<le> line_value mark b
      else if mx then
        some_cell (\<lambda>i. if b ! i = '' '' then safe n mark opp False (b[i := mark]) else False)
          [0..<9]
      else
        every_cell (\<lambda>i. if b ! i = '' '' then safe n mark opp True (b[i := opp]) else True)
          [0..<9])"

lemma some_cell_iff: "some_cell P xs \<longleftrightarrow> (\<exists>i \<in> set xs. P i)"
  by (induction xs) auto

lemma every_cell_iff: "every_cell P xs \<longleftrightarrow> (\<forall>i \<in> set xs. P i)"
  by (induction xs) auto

lemma opponent_symbol_other: "opponent_symbol ai \<noteq> symbol ai"
  by (simp add: opponent_symbol_def)

lemma other_player_simps:
  "other_player ai (symbol ai) = opponent_symbol ai"
  "other_player ai (opponent_symbol ai) = symbol ai"
  using opponent_symbol_other[of ai] by (simp_all add: other_player_def)

lemma move_score_search:
  "move_score ai b player m i = search_score ai (b[i := player]) (other_player ai player) m"
  by (simp add: move_score_def search_score_def)

lemma evaluate_line_value:
  "length b = 9 \<Longrightarrow> evaluate_board ai b = Inr (line_value (symbol ai) b)"
  by (simp add: evaluate_board_find line_value_def)

lemma search_score_terminal:
  assumes "length b = 9" and "line_value (symbol ai) b \<noteq> 0 \<or> '' '' \<notin> set b"
  shows "search_score ai b player m = Fin (line_value (symbol ai) b)"
  using minimax_terminal[OF evaluate_line_value[OF assms(1)] assms(2), of player m]
  by (simp add: search_score_def)

lemma search_score_max:
  assumes len: "length b = 9" and nl: "line_value (symbol ai) b = 0" and bl: "'' '' \<in> set b"
  shows "\<exists>k. k < 9 \<and> b ! k = '' '' \<and>
           minimax ai b player True = Inr ((search_score ai b player True, Some k), b) \<and>
           search_score ai b player True = move_score ai b player False k \<and>
           (\<forall>j. j < 9 \<and> b ! j = '' '' \<longrightarrow>
                 move_score ai b player False j \<le> search_score ai b player True)"
proof -
  have ev: "evaluate_board ai b = Inr 0" using evaluate_line_value[OF len, of ai] nl by simp
  from minimax_max_choice[OF len ev bl, of player] obtain k where
    k: "k < 9" "b ! k = '' ''"
       "minimax ai b player True = Inr ((move_score ai b player False k, Some k), b)"
       "\<forall>j. j < 9 \<and> b ! j = '' '' \<longrightarrow> move_score ai b player False j \<le> move_score ai b player False k"
    by blast
  from k(3) have "search_score ai b player True = move_score ai b player False k"
    by (simp add: search_score_def)
  with k show ?thesis by auto
qed

lemma search_score_min:
  assumes len: "length b = 9" and nl: "line_value (symbol ai) b = 0" and bl: "'' '' \<in> set b"
  shows "\<exists>k. k < 9 \<and> b ! k = '' '' \<and>
           search_score ai b player False = move_score ai b player True k \<and>
           (\<forall>j. j < 9 \<and> b ! j = '' '' \<longrightarrow>
                 search_score ai b player False \<le> move_score ai b player True j)"
proof -
  have ev: "evaluate_board ai b = Inr 0" using evaluate_line_value[OF len, of ai] nl by simp
  from minimax_min_choice[OF len ev bl, of player] obtain k where
    k: "k < 9" "b ! k = '' ''"
       "minimax ai b player False = Inr ((move_score ai b player True k, Some k), b)"
       "\<forall>j. j < 9 \<and> b ! j = '' '' \<longrightarrow> move_score ai b player True k \<le> move_score ai b player True j"
    by blast
  from k(3) have "search_score ai b player False = move_score ai b player True k"
    by (simp add: search_score_def)
  with k show ?thesis by auto
qed

lemma safe_sound:
  "length b = 9 \<Longrightarrow> safe n (symbol ai) (opponent_symbol ai) mx b \<Longrightarrow>
     Fin 0 \<le> search_score ai b (if mx then symbol ai else opponent_symbol ai) mx"
proof (induction n arbitrary: b mx)
  case 0
  then show ?case by simp
next
  case (Suc n)
  note len = Suc.prems(1)
  let ?v = "line_value (symbol ai) b"
  show ?case
  proof (cases "?v \<noteq> 0 \<or> '' '' \<notin> set b")
    case True
    with Suc.prems(2) have "0 \<le> ?v" by simp
    with search_score_terminal[OF len True] show ?thesis by simp
  next
    case False
    then have nl: "?v = 0" and bl: "'' '' \<in> set b" by auto
    show ?thesis
    proof (cases mx)
      case True
      with Suc.prems(2) False obtain i where
        i: "i < 9" "b ! i = '' ''" "safe n (symbol ai) (opponent_symbol ai) False (b[i := symbol ai])"
        by (auto simp: some_cell_iff split: if_splits)
      have "length (b[i := symbol ai]) = 9" using len by simp
      from Suc.IH[OF this i(3)]
      have "Fin 0 \<le> move_score ai b (symbol ai) False i"
        by (simp add: move_score_search other_player_simps)
      also from search_score_max[OF len nl bl, of "symbol ai"] i(1,2)
      have "move_score ai b (symbol ai) False i \<le> search_score ai b (symbol ai) True"
        by blast
      finally show ?thesis using True by simp
    next
      case mn: False
      from search_score_min[OF len nl bl, of "opponent_symbol ai"] obtain k where
        k: "k < 9" "b ! k = '' ''"
           "search_score ai b (opponent_symbol ai) False = move_score ai b (opponent_symbol ai) True k"
        by blast
      from Suc.prems(2) False mn k(1,2)
      have s: "safe n (symbol ai) (opponent_symbol ai) True (b[k := opponent_symbol ai])"
        by (auto simp: every_cell_iff split: if_splits)
      have "length (b[k := opponent_symbol ai]) = 9" using len by simp
      from Suc.IH[OF this s]
      have "Fin 0 \<le> move_score ai b (opponent_symbol ai) True k"
        by (simp add: move_score_search other_player_simps)
      with k(3) mn show ?thesis by simp
    qed
  qed
qed

lemma first_player_safe_start: "safe 10 ''X'' ''O'' True (replicate 9 '' '')"
  by code_simp

text \<open>
  The games of the claim: from a new board, X moves where \<open>SmartAI.get_move\<close> says and O
  makes any move that \<open>is_valid_move\<close> accepts, as long as the game is not over (the loop
  of the drivers: \<open>get_move\<close>, then \<open>make_move\<close>).
\<close>

inductive smart_first :: "SmartAI \<Rightarrow> TicTacToe \<Rightarrow> bool" for ai :: SmartAI where
  smart_first_init: "smart_first ai init"
| smart_first_search:
    "smart_first ai game \<Longrightarrow> \<not> is_game_over game \<Longrightarrow> current_player game = ''X'' \<Longrightarrow>
     SmartAI_get_move ai low r game = Inr position \<Longrightarrow>
     make_move game position = Inr (ok, game') \<Longrightarrow> smart_first ai game'"
| smart_first_reply:
    "smart_first ai game \<Longrightarrow> \<not> is_game_over game \<Longrightarrow> current_player game = ''O'' \<Longrightarrow>
     is_valid_move game position = Inr True \<Longrightarrow>
     make_move game position = Inr (ok, game') \<Longrightarrow> smart_first ai game'"

text \<open>
  The invariant of these games: the counts are right, O has not won, and while the game
  goes on the board has no line, has a blank cell, and the search score for the player to
  move (maximising for X, minimising for O) is at least 0.
\<close>

definition smart_invariant :: "SmartAI \<Rightarrow> TicTacToe \<Rightarrow> bool" where
  "smart_invariant ai game =
     (count_invariant game \<and> game_state game \<noteq> O_WINS \<and>
      (game_state game = ONGOING \<longrightarrow>
         line_value ''X'' (board game) = 0 \<and> '' '' \<in> set (board game) \<and>
         (current_player game = ''X'' \<longrightarrow>
            Fin 0 \<le> search_score ai (board game) ''X'' True) \<and>
         (current_player game = ''O'' \<longrightarrow>
            Fin 0 \<le> search_score ai (board game) ''O'' False)))"

lemma line_value_cases: "line_value mark b = 10 \<or> line_value mark b = - 10 \<or> line_value mark b = 0"
  by (simp add: line_value_def split: option.splits)

lemma make_move_outcome:
  assumes len: "length (board game) = 9" and mv: "make_move game position = Inr (True, game')"
  shows "legal game position"
    and "board game' = (board game)[nat position := current_player game]"
    and "moves_count game' = moves_count game + 1"
    and "game_state game' =
           (if line_value ''X'' (board game') = 10 then X_WINS
            else if line_value ''X'' (board game') = - 10 then O_WINS
            else if moves_count game' = 9 then DRAW else ONGOING)"
    and "current_player game' =
           (if game_state game' = ONGOING
            then (if current_player game = ''X'' then ''O'' else ''X'')
            else current_player game)"
proof -
  let ?b = "(board game)[nat position := current_player game]"
  let ?t = "game\<lparr>board := ?b, moves_count := moves_count game + 1\<rparr>"
  from make_move_accepted[OF len mv] obtain u where
    leg: "legal game position" and u: "update_game_state ?t = Inr u" and
    g': "game' = (if game_state u = ONGOING
               then u\<lparr>current_player := (if current_player u = ''X'' then ''O'' else ''X'')\<rparr>
               else u)"
    by blast
  have lent: "length (board ?t) = 9" using len by simp
  note fr = update_game_state_frame[OF u]
  have on: "game_state game = ONGOING" using leg by (simp add: legal_def)
  show "legal game position" by fact
  show b': "board game' = ?b" using fr g' by (simp split: if_splits)
  show m': "moves_count game' = moves_count game + 1" using fr g' by (simp split: if_splits)
  have gu: "game_state game' = game_state u" using g' by (simp split: if_splits)
  have "game_state u =
           (if line_value ''X'' ?b = 10 then X_WINS
            else if line_value ''X'' ?b = - 10 then O_WINS
            else if moves_count game + 1 = 9 then DRAW else ONGOING)"
    using u update_game_state_find[OF lent] on
    by (auto simp: line_value_def split: option.splits)
  with gu b' m' show "game_state game' =
           (if line_value ''X'' (board game') = 10 then X_WINS
            else if line_value ''X'' (board game') = - 10 then O_WINS
            else if moves_count game' = 9 then DRAW else ONGOING)"
    by simp
  show "current_player game' =
           (if game_state game' = ONGOING
            then (if current_player game = ''X'' then ''O'' else ''X'')
            else current_player game)"
    using g' fr by (simp split: if_splits)
qed

lemma count_invariant_blank:
  assumes "count_invariant game" and "moves_count game \<noteq> 9"
  shows "'' '' \<in> set (board game)"
proof (rule ccontr)
  assume "'' '' \<notin> set (board game)"
  then have "filter (\<lambda>c. c \<noteq> '' '') (board game) = board game"
    by (auto simp: filter_id_conv)
  with assms show False by (simp add: count_invariant_def)
qed

lemma smart_invariant_init:
  assumes "symbol ai = ''X''"
  shows "smart_invariant ai init"
proof -
  have op: "opponent_symbol ai = ''O''" using assms by (simp add: opponent_symbol_def)
  have "length (board init) = 9" by (simp add: init_def)
  from safe_sound[OF this, of 10 ai True] first_player_safe_start assms op
  have "Fin 0 \<le> search_score ai (board init) ''X'' True" by (simp add: init_def)
  moreover have "line_value ''X'' (replicate 9 '' '') = 0" by code_simp
  ultimately show ?thesis
    using count_invariant_init by (simp add: smart_invariant_def init_def)
qed

lemma smart_invariant_move:
  assumes sym: "symbol ai = ''X''"
    and inv: "smart_invariant ai game" and on: "game_state game = ONGOING"
    and mv: "make_move game position = Inr (True, game')"
    and good: "Fin 0 \<le> search_score ai ((board game)[nat position := current_player game])
                        (if current_player game = ''X'' then ''O'' else ''X'')
                        (current_player game \<noteq> ''X'')"
  shows "smart_invariant ai game'"
proof -
  have ci: "count_invariant game" using inv by (simp add: smart_invariant_def)
  then have len: "length (board game) = 9" by (simp add: count_invariant_def)
  note out = make_move_outcome[OF len mv]
  have ci': "count_invariant game'" using count_invariant_move[OF ci mv] .
  then have len': "length (board game') = 9" by (simp add: count_invariant_def)
  let ?v = "line_value ''X'' (board game')"
  let ?p = "if current_player game = ''X'' then ''O'' else ''X''"
  let ?m = "current_player game \<noteq> ''X''"
  have good': "Fin 0 \<le> search_score ai (board game') ?p ?m" using good out(2) by simp
  have nonneg: "?v \<noteq> - 10"
  proof
    assume neg: "?v = - 10"
    then have "line_value (symbol ai) (board game') \<noteq> 0 \<or> '' '' \<notin> set (board game')"
      using sym by simp
    from search_score_terminal[OF len' this, of ?p ?m] good' neg sym
    show False by simp
  qed
  have st: "game_state game' \<noteq> O_WINS" using out(4) nonneg by simp
  have "game_state game' = ONGOING \<longrightarrow>
         ?v = 0 \<and> '' '' \<in> set (board game') \<and>
         (current_player game' = ''X'' \<longrightarrow> Fin 0 \<le> search_score ai (board game') ''X'' True) \<and>
         (current_player game' = ''O'' \<longrightarrow> Fin 0 \<le> search_score ai (board game') ''O'' False)"
  proof
    assume on': "game_state game' = ONGOING"
    with out(4) have v0: "?v = 0" and m9: "moves_count game' \<noteq> 9"
      using line_value_cases[of "''X''" "board game'"] by (auto split: if_splits)
    have bl: "'' '' \<in> set (board game')" using count_invariant_blank[OF ci' m9] .
    have cp: "current_player game' = ?p" using out(5) on' by simp
    show "?v = 0 \<and> '' '' \<in> set (board game') \<and>
         (current_player game' = ''X'' \<longrightarrow> Fin 0 \<le> search_score ai (board game') ''X'' True) \<and>
         (current_player game' = ''O'' \<longrightarrow> Fin 0 \<le> search_score ai (board game') ''O'' False)"
      using v0 bl cp good' by (auto split: if_splits)
  qed
  with ci' st show ?thesis by (simp add: smart_invariant_def)
qed

lemma make_move_legal:
  assumes "length (board game) = 9" and "legal game position"
    and "make_move game position = Inr (ok, game')"
  shows "ok"
  using assms by (auto simp: make_move_def is_valid_move_legal split: sum.splits)

lemma smart_first_invariant:
  assumes sym: "symbol ai = ''X''" and hard: "difficulty ai \<noteq> ''easy''"
  shows "smart_first ai game \<Longrightarrow> smart_invariant ai game"
proof (induction rule: smart_first.induct)
  case smart_first_init
  then show ?case by (rule smart_invariant_init[OF sym])
next
  case (smart_first_search game low r position ok game')
  note inv = smart_first_search.IH
  have on: "game_state game = ONGOING"
    using smart_first_search.hyps(2) by (simp add: is_game_over_def)
  have cp: "current_player game = ''X''" by fact
  have len: "length (board game) = 9" using inv by (simp add: smart_invariant_def count_invariant_def)
  have nl: "line_value (symbol ai) (board game) = 0" and bl: "'' '' \<in> set (board game)"
    and nonneg: "Fin 0 \<le> search_score ai (board game) ''X'' True"
    using inv on cp sym by (simp_all add: smart_invariant_def)
  from search_score_max[OF len nl bl, of "''X''"] obtain k where
    k: "k < 9" "board game ! k = '' ''"
       "minimax ai (board game) ''X'' True = Inr ((search_score ai (board game) ''X'' True, Some k), board game)"
       "search_score ai (board game) ''X'' True = move_score ai (board game) ''X'' False k"
    by blast
  have pos: "position = int k"
    using smart_first_search.hyps(4) hard k(3) sym
    by (simp add: SmartAI_get_move_def get_board_copy_def)
  have leg: "legal game position" using pos k on by (simp add: legal_def)
  have ok: ok using make_move_legal[OF len leg smart_first_search.hyps(5)] .
  have op: "other_player ai ''X'' = ''O''"
    using sym by (simp add: other_player_def opponent_symbol_def)
  have "Fin 0 \<le> search_score ai ((board game)[k := ''X'']) ''O'' False"
    using nonneg k(4) op by (simp add: move_score_search)
  then have good: "Fin 0 \<le> search_score ai ((board game)[nat position := current_player game])
                        (if current_player game = ''X'' then ''O'' else ''X'')
                        (current_player game \<noteq> ''X'')"
    using pos cp by simp
  from smart_invariant_move[OF sym inv on _ good] smart_first_search.hyps(5) ok
  show ?case by simp
next
  case (smart_first_reply game position ok game')
  note inv = smart_first_reply.IH
  have on: "game_state game = ONGOING"
    using smart_first_reply.hyps(2) by (simp add: is_game_over_def)
  have cp: "current_player game = ''O''" by fact
  have len: "length (board game) = 9" using inv by (simp add: smart_invariant_def count_invariant_def)
  have nl: "line_value (symbol ai) (board game) = 0" and bl: "'' '' \<in> set (board game)"
    and nonneg: "Fin 0 \<le> search_score ai (board game) ''O'' False"
    using inv on cp sym by (simp_all add: smart_invariant_def)
  have leg: "legal game position"
    using smart_first_reply.hyps(4) is_valid_move_legal[OF len, of position] by simp
  then have j: "nat position < 9" "board game ! nat position = '' ''"
    by (auto simp: legal_def)
  have ok: ok using make_move_legal[OF len leg smart_first_reply.hyps(5)] .
  have op: "other_player ai ''O'' = ''X''"
    using sym by (simp add: other_player_def)
  from search_score_min[OF len nl bl, of "''O''"] j
  have "search_score ai (board game) ''O'' False \<le> move_score ai (board game) ''O'' True (nat position)"
    by blast
  with nonneg have "Fin 0 \<le> search_score ai ((board game)[nat position := ''O'']) ''X'' True"
    using op by (simp add: move_score_search)
  then have good: "Fin 0 \<le> search_score ai ((board game)[nat position := current_player game])
                        (if current_player game = ''X'' then ''O'' else ''X'')
                        (current_player game \<noteq> ''X'')"
    using cp by simp
  from smart_invariant_move[OF sym inv on _ good] smart_first_reply.hyps(5) ok
  show ?case by simp
qed

lemma make_move_accepts:
  assumes len: "length (board game) = 9" and leg: "legal game position"
  shows "\<exists>game'. make_move game position = Inr (True, game')"
proof -
  let ?t = "game\<lparr>board := (board game)[nat position := current_player game],
               moves_count := moves_count game + 1\<rparr>"
  have pos: "nat position < length (board game)" using leg len by (auto simp: legal_def)
  have "length (board ?t) = 9" using len by simp
  from update_game_state_find[OF this] obtain u where "update_game_state ?t = Inr u"
    by blast
  with leg len pos show ?thesis
    by (simp add: make_move_def is_valid_move_legal setitem_def)
qed

text \<open>
  C3. \<open>smart_first ai\<close> holds of the objects of every game that starts from a new board and
  in which the minimax player picks each move of X with \<open>get_move\<close> and the moves of O are
  any legal moves. When the minimax player has symbol X and does not play at difficulty
  \<open>"easy"\<close>, no such object has game state \<open>O_WINS\<close>: a finished game is a win of X or a
  draw. At every turn of X in such a game \<open>get_move\<close> returns a position and \<open>make_move\<close>
  accepts it.
\<close>

theorem smart_first_never_loses:
  assumes "symbol ai = ''X''" and "difficulty ai \<noteq> ''easy''" and "smart_first ai game"
  shows "game_state game \<noteq> O_WINS \<and>
         (is_game_over game \<longrightarrow> game_state game = X_WINS \<or> game_state game = DRAW) \<and>
         (\<not> is_game_over game \<and> current_player game = ''X'' \<longrightarrow>
            (\<exists>position game'. SmartAI_get_move ai low r game = Inr position \<and>
                               make_move game position = Inr (True, game')))"
proof -
  note inv = smart_first_invariant[OF assms]
  then have st: "game_state game \<noteq> O_WINS" by (simp add: smart_invariant_def)
  have over: "is_game_over game \<longrightarrow> game_state game = X_WINS \<or> game_state game = DRAW"
    using st by (cases "game_state game") (simp_all add: is_game_over_def)
  have "\<exists>position game'. SmartAI_get_move ai low r game = Inr position \<and>
                               make_move game position = Inr (True, game')"
    if "\<not> is_game_over game \<and> current_player game = ''X''"
  proof -
    from that have on: "game_state game = ONGOING" by (simp add: is_game_over_def)
    have len: "length (board game) = 9"
      using inv by (simp add: smart_invariant_def count_invariant_def)
    have bl: "'' '' \<in> set (board game)" using inv on by (simp add: smart_invariant_def)
    from automated_moves_legal[OF len on, where r = r and ai = ai and low = low] bl obtain p where
      p: "SmartAI_get_move ai low r game = Inr p" by blast
    with automated_moves_legal[OF len on, where r = r and ai = ai and low = low and position = p]
    have "legal game p" using on by (simp add: legal_def)
    from make_move_accepts[OF len this] p show ?thesis by blast
  qed
  with st over show ?thesis by blast
qed

theorem smart_first_never_loses_witness:
  "symbol \<lparr>symbol = ''X'', difficulty = ''hard''\<rparr> = ''X'' \<and>
   difficulty \<lparr>symbol = ''X'', difficulty = ''hard''\<rparr> \<noteq> ''easy'' \<and>
   smart_first \<lparr>symbol = ''X'', difficulty = ''hard''\<rparr> init \<and>
   game_state init \<noteq> O_WINS \<and>
   (\<exists>position game'.
      SmartAI_get_move \<lparr>symbol = ''X'', difficulty = ''hard''\<rparr> False 0 init = Inr position \<and>
      make_move init position = Inr (True, game') \<and>
      smart_first \<lparr>symbol = ''X'', difficulty = ''hard''\<rparr> game' \<and>
      game_state game' \<noteq> O_WINS)"
proof -
  let ?ai = "\<lparr>symbol = ''X'', difficulty = ''hard''\<rparr>"
  have s: "symbol ?ai = ''X''" by simp
  have d: "difficulty ?ai \<noteq> ''easy''" by simp
  have i: "smart_first ?ai init" by (rule smart_first_init)
  have over: "\<not> is_game_over init" and turn: "current_player init = ''X''"
    by (simp_all add: is_game_over_def init_def)
  from smart_first_never_loses[OF s d i, where low = False and r = 0] over turn
  have st: "game_state init \<noteq> O_WINS"
    and "\<exists>position game'.
      SmartAI_get_move ?ai False 0 init = Inr position \<and>
      make_move init position = Inr (True, game')"
    by blast+
  then obtain position game' where
    g: "SmartAI_get_move ?ai False 0 init = Inr position"
    and m: "make_move init position = Inr (True, game')"
    by blast
  have i': "smart_first ?ai game'"
    by (rule smart_first_search[OF i over turn g m])
  from smart_first_never_loses[OF s d i', where low = False and r = 0]
  have "game_state game' \<noteq> O_WINS" by blast
  with s d i st g m i' show ?thesis by blast
qed


section \<open>Properties of the statistics\<close>

text \<open>
  The objects that \<open>__init__\<close>, \<open>reset\<close>, \<open>record_game\<close> and \<open>get_stats\<close> can produce.
\<close>

inductive recorded :: "GameStats \<Rightarrow> bool" where
  recorded_init: "recorded GameStats_init"
| recorded_reset: "recorded st \<Longrightarrow> recorded (GameStats_reset st)"
| recorded_game: "recorded st \<Longrightarrow> recorded (record_game st final_state moves)"
| recorded_stats: "recorded st \<Longrightarrow> get_stats st = Inr (d, st') \<Longrightarrow> recorded st'"

lemma binary64_zero: "binary64 0 = Inr 0"
  by (simp add: binary64_def)

lemma round_half_even_zero: "round_half_even 0 = 0"
  by (simp add: round_half_even_def)

lemma binary64_no_zero_division: "binary64 x \<noteq> Inl ZeroDivisionError"
  by (simp add: binary64_def Let_def)

lemma get_stats_no_zero_division: "get_stats st \<noteq> Inl ZeroDivisionError"
proof -
  have "max 1 (games_played st) \<noteq> 0" by simp
  then have "true_div (total_moves st) (max 1 (games_played st)) \<noteq> Inl ZeroDivisionError"
    using binary64_no_zero_division by (simp add: true_div_def)
  moreover have "py_round x 1 \<noteq> Inl ZeroDivisionError" for x
    using binary64_no_zero_division by (simp add: py_round_def)
  ultimately show ?thesis
    by (auto simp: get_stats_def split: prod.splits sum.splits)
qed

definition no_games :: "GameStats \<Rightarrow> bool" where
  "no_games st =
     (0 \<le> games_played st \<and>
      (games_played st = 0 \<longrightarrow>
         total_moves st = 0 \<and> draws st = 0 \<and>
         wins st ''X'' \<in> {None, Some 0} \<and> wins st ''O'' \<in> {None, Some 0}))"

lemma recorded_no_games: "recorded st \<Longrightarrow> no_games st"
proof (induction rule: recorded.induct)
  case recorded_init
  then show ?case by (simp add: no_games_def GameStats_init_def)
next
  case (recorded_reset st)
  then show ?case by (simp add: no_games_def GameStats_reset_def)
next
  case (recorded_game st final_state moves)
  then show ?case
    by (auto simp: no_games_def record_game_def Let_def split: prod.splits)
next
  case (recorded_stats st d st')
  then show ?case
    by (auto simp: no_games_def get_stats_def defaultdict_getitem_def
             split: prod.splits sum.splits option.splits if_splits)
qed

lemma get_stats_no_games:
  assumes "no_games st" and "games_played st = 0"
  shows "\<exists>st'. get_stats st =
           Inr (\<lparr>stats_games_played = 0, stats_x_wins = 0, stats_o_wins = 0,
                 stats_draws = 0, stats_average_moves = 0\<rparr>, st')"
proof -
  have "true_div 0 1 = Inr 0" by (simp add: true_div_def binary64_zero)
  moreover have "py_round 0 1 = Inr 0"
    by (simp add: py_round_def round_half_even_zero binary64_zero)
  ultimately show ?thesis
    using assms
    by (auto simp: no_games_def get_stats_def defaultdict_getitem_def
             split: option.splits)
qed

text \<open>
  C8. After a new \<open>GameStats\<close> has recorded (X_WINS, 5), (O_WINS, 7), (DRAW, 9) and
  (X_WINS, 6), \<open>get_stats\<close> returns 4 games, 2 wins of X, 1 win of O, 1 draw, and as
  average the mean 27/4 = 6.75 rounded to one decimal: 68 tenths, that is the double
  nearest to 6.8.
\<close>

theorem stats_after_four_games:
  "map_sum id fst (get_stats
      (record_game (record_game (record_game (record_game GameStats_init
         X_WINS 5) O_WINS 7) DRAW 9) X_WINS 6)) =
   Inr \<lparr>stats_games_played = 4, stats_x_wins = 2, stats_o_wins = 1, stats_draws = 1,
        stats_average_moves = 7656119366529843 / 1125899906842624\<rparr> \<and>
   true_div 27 4 = Inr (27 / 4) \<and>
   round_half_even (27 / 4 * 10) = 68 \<and>
   py_round (27 / 4) 1 = Inr (7656119366529843 / 1125899906842624) \<and>
   binary64 (34 / 5) = Inr (7656119366529843 / 1125899906842624) \<and>
   \<bar>7656119366529843 / 1125899906842624 - 34 / (5::rat)\<bar> < 1 / 2 ^ 52"
proof (intro conjI)
  show "map_sum id fst (get_stats
      (record_game (record_game (record_game (record_game GameStats_init
         X_WINS 5) O_WINS 7) DRAW 9) X_WINS 6)) =
   Inr \<lparr>stats_games_played = 4, stats_x_wins = 2, stats_o_wins = 1, stats_draws = 1,
        stats_average_moves = 7656119366529843 / 1125899906842624\<rparr>"
    by code_simp
  show "true_div 27 4 = Inr (27 / 4)" by code_simp
  show "round_half_even (27 / 4 * 10) = 68" by code_simp
  show "py_round (27 / 4) 1 = Inr (7656119366529843 / 1125899906842624)" by code_simp
  show "binary64 (34 / 5) = Inr (7656119366529843 / 1125899906842624)" by code_simp
  show "\<bar>7656119366529843 / 1125899906842624 - 34 / (5::rat)\<bar> < 1 / 2 ^ 52" by simp
qed

text \<open>
  C10. \<open>get_stats\<close> never raises \<open>ZeroDivisionError\<close>, whatever the object: the divisor
  \<open>max(1, games_played)\<close> is at least 1. On an object that has recorded no game (new, reset,
  or read by \<open>get_stats\<close> since) all counts and the average are 0.
\<close>

theorem get_stats_without_games:
  assumes "recorded st" and "games_played st = 0"
  shows "(\<exists>st'. get_stats st =
            Inr (\<lparr>stats_games_played = 0, stats_x_wins = 0, stats_o_wins = 0,
                  stats_draws = 0, stats_average_moves = 0\<rparr>, st')) \<and>
         max 1 (games_played st) = 1 \<and>
         (\<forall>any. get_stats any \<noteq> Inl ZeroDivisionError \<and> 1 \<le> max 1 (games_played any))"
  using get_stats_no_games[OF recorded_no_games[OF assms(1)] assms(2)] assms(2)
    get_stats_no_zero_division
  by simp

theorem get_stats_without_games_witness:
  "recorded (GameStats_reset (record_game GameStats_init X_WINS 5)) \<and>
   games_played (GameStats_reset (record_game GameStats_init X_WINS 5)) = 0 \<and>
   (\<exists>st'. get_stats (GameStats_reset (record_game GameStats_init X_WINS 5)) =
            Inr (\<lparr>stats_games_played = 0, stats_x_wins = 0, stats_o_wins = 0,
                  stats_draws = 0, stats_average_moves = 0\<rparr>, st')) \<and>
   recorded GameStats_init \<and> games_played GameStats_init = 0 \<and>
   (\<exists>st'. get_stats GameStats_init =
            Inr (\<lparr>stats_games_played = 0, stats_x_wins = 0, stats_o_wins = 0,
                  stats_draws = 0, stats_average_moves = 0\<rparr>, st'))"
proof -
  let ?st = "GameStats_reset (record_game GameStats_init X_WINS 5)"
  have r: "recorded ?st"
    by (intro recorded_reset recorded_game recorded_init)
  have g: "games_played ?st = 0" by (simp add: GameStats_reset_def)
  have r0: "recorded GameStats_init" by (rule recorded_init)
  have g0: "games_played GameStats_init = 0" by (simp add: GameStats_init_def)
  from get_stats_without_games[OF r g] get_stats_without_games[OF r0 g0] r g r0 g0
  show ?thesis by blast
qed


section \<open>Properties of the console session\<close>

lemma human_never_interrupted:
  "fst (HumanPlayer_get_move game events) \<noteq> Inl KeyboardInterrupt"
proof (induction events)
  case Nil
  then show ?case by simp
next
  case (Cons ev events)
  show ?case
  proof (cases ev)
    case (Entered n)
    have "is_valid_move game (n - 1) \<noteq> Inl KeyboardInterrupt"
      by (simp add: is_valid_move_def getitem_def)
    with Cons Entered show ?thesis by (auto split: sum.splits)
  next
    case Unparsable
    with Cons show ?thesis by simp
  next
    case Interrupt
    with Cons show ?thesis by simp
  qed
qed

text \<open>
  C9. An interrupt at a prompt of a human player does not end the session:
  \<open>HumanPlayer.get_move\<close> never leaves with \<open>KeyboardInterrupt\<close>, it prompts again. With
  two human players, an interrupt at the first prompt and then the entries 1 to 7, the
  session runs to its end and returns \<open>X_WINS\<close>. The \<open>except KeyboardInterrupt\<close> clause
  of \<open>play_game\<close> does end the session, with the game as it was, when a player's
  \<open>get_move\<close> leaves with the interrupt.
\<close>

theorem interrupt_is_swallowed:
  "(\<forall>game events. fst (HumanPlayer_get_move game events) \<noteq> Inl KeyboardInterrupt) \<and>
   HumanPlayer_get_move init [Interrupt, Entered 1] = (Inr 0, []) \<and>
   play_game HumanPlayer_get_move HumanPlayer_get_move init
     [Interrupt, Entered 1, Entered 2, Entered 3, Entered 4, Entered 5, Entered 6, Entered 7] =
   Some (Returned X_WINS,
         \<lparr>board = [''X'', ''O'', ''X'', ''O'', ''X'', ''O'', ''X'', '' '', '' ''],
            current_player = ''X'', game_state = X_WINS, moves_count = 7,
            winner = Some ''X'', winning_pattern = Some (2, 4, 6)\<rparr>, []) \<and>
   play_game (\<lambda>game events. (Inl KeyboardInterrupt, events)) HumanPlayer_get_move init
     [Entered 1] = Some (Interrupted, init, [Entered 1])"
proof (intro conjI allI)
  have i: "init = \<lparr>board = ['' '', '' '', '' '', '' '', '' '', '' '', '' '', '' '', '' ''],
            current_player = ''X'', game_state = ONGOING, moves_count = 0,
            winner = None, winning_pattern = None\<rparr>"
    by code_simp
  show "fst (HumanPlayer_get_move game events) \<noteq> Inl KeyboardInterrupt" for game events
    by (rule human_never_interrupted)
  show "HumanPlayer_get_move init [Interrupt, Entered 1] = (Inr 0, [])"
    by code_simp
  show "play_game HumanPlayer_get_move HumanPlayer_get_move init
     [Interrupt, Entered 1, Entered 2, Entered 3, Entered 4, Entered 5, Entered 6, Entered 7] =
   Some (Returned X_WINS,
         \<lparr>board = [''X'', ''O'', ''X'', ''O'', ''X'', ''O'', ''X'', '' '', '' ''],
            current_player = ''X'', game_state = X_WINS, moves_count = 7,
            winner = Some ''X'', winning_pattern = Some (2, 4, 6)\<rparr>, [])"
    unfolding i
    by (simp add: play_game.simps is_game_over_def make_move_def is_valid_move_def
        getitem_def setitem_def update_game_state_def WIN_PATTERNS_def line_at_def)
  show "play_game (\<lambda>game events. (Inl KeyboardInterrupt, events)) HumanPlayer_get_move init
     [Entered 1] = Some (Interrupted, init, [Entered 1])"
    by (simp add: play_game.simps is_game_over_def init_def)
qed

end
